theory Spec2Isabelle
  imports Complex_Main "HOL-Library.Multiset" "HOL-Library.Sublist"
begin

section \<open>JavaScript strings\<close>

text \<open>
  A JavaScript string is modelled as a \<^typ>\<open>string\<close>: a list of code units, here the
  code units below 256 (the Latin-1 range). The empty string is the only falsy string.
\<close>

definition js_ws :: "char \<Rightarrow> bool" where
  \<comment> \<open>the characters of \<open>\<bslash>s\<close> and of \<open>String.prototype.trim\<close> in this range:
      TAB, LF, VT, FF, CR, SPACE, NBSP\<close>
  "js_ws c = ((of_char c :: nat) \<in> {9, 10, 11, 12, 13, 32, 160})"

definition trim :: "string \<Rightarrow> string" where
  "trim s = rev (dropWhile js_ws (rev (dropWhile js_ws s)))"

definition is_digit :: "char \<Rightarrow> bool" where
  "is_digit c = (48 \<le> (of_char c :: nat) \<and> (of_char c :: nat) \<le> 57)"

definition digit_val :: "char \<Rightarrow> nat" where
  "digit_val c = (of_char c :: nat) - 48"

definition digits_val :: "string \<Rightarrow> nat" where
  "digits_val ds = foldl (\<lambda>a c. 10 * a + digit_val c) 0 ds"

definition lower_char :: "char \<Rightarrow> char" where
  \<comment> \<open>\<open>toLowerCase\<close> on one code unit: A-Z, and the Latin-1 capitals 0xC0-0xDE without 0xD7\<close>
  "lower_char c =
     (let n = (of_char c :: nat) in
      if (65 \<le> n \<and> n \<le> 90) \<or> (192 \<le> n \<and> n \<le> 222 \<and> n \<noteq> 215)
      then char_of (n + 32) else c)"

definition toLowerCase :: "string \<Rightarrow> string" where
  "toLowerCase s = map lower_char s"

fun includes_js :: "string \<Rightarrow> string \<Rightarrow> bool" where
  \<comment> \<open>\<open>s.includes(q)\<close>: does \<open>q\<close> occur in \<open>s\<close> at some position\<close>
  "includes_js [] q = (q = [])"
| "includes_js (c # s) q = (prefix q (c # s) \<or> includes_js s q)"

section \<open>Data model\<close>

text \<open>
  The client object built by the Add / Save handler. \<open>client_id\<close> is its \<open>id\<close>, the number returned by
  \<open>Date.now()\<close>; every other field is a string read from the form.
\<close>

record client =
  client_id :: int
  fullName :: string
  age :: string
  gender :: string
  email :: string
  phone :: string
  goal :: string
  startDate :: string
  endDate :: string

text \<open>The values of the form's input elements, by element id.\<close>

record form =
  f_fullName :: string
  f_age :: string
  f_gender :: string
  f_email :: string
  f_phone :: string
  f_goal :: string
  f_goalFree :: string
  f_startDate :: string
  f_endDate :: string

section \<open>Persistence: \<open>saveClients\<close>\<close>

text \<open>
  The values \<open>JSON.stringify\<close> writes and \<open>JSON.parse\<close> returns. A number is an integer
  (\<open>JNum\<close>); a number literal with a fraction or an exponent is kept as its text
  (\<open>JFloat\<close>), since floating-point values are not interpreted here. An object is the list
  of its members in creation order.
\<close>

datatype json =
    JNull
  | JBool bool
  | JNum int
  | JFloat string
  | JStr string
  | JArr "json list"
  | JObj "(string \<times> json) list"

definition hex_digit :: "nat \<Rightarrow> char" where
  "hex_digit n = (if n < 10 then char_of (48 + n) else char_of (87 + n))"

definition quote_char :: "char \<Rightarrow> string" where
  \<comment> \<open>QuoteJSONString, one code unit\<close>
  "quote_char c =
     (let n = (of_char c :: nat) in
      if n = 34 then [CHR 0x5C, CHR 0x22]
      else if n = 92 then [CHR 0x5C, CHR 0x5C]
      else if n = 8 then [CHR 0x5C, CHR ''b'']
      else if n = 12 then [CHR 0x5C, CHR ''f'']
      else if n = 10 then [CHR 0x5C, CHR ''n'']
      else if n = 13 then [CHR 0x5C, CHR ''r'']
      else if n = 9 then [CHR 0x5C, CHR ''t'']
      else if n < 32 then
        [CHR 0x5C, CHR ''u'', CHR ''0'', CHR ''0'', hex_digit (n div 16), hex_digit (n mod 16)]
      else [c])"

definition quote :: "string \<Rightarrow> string" where
  "quote s = [CHR 0x22] @ concat (map quote_char s) @ [CHR 0x22]"

function nat_digits :: "nat \<Rightarrow> string" where
  "nat_digits n = (if n < 10 then [char_of (48 + n)]
                   else nat_digits (n div 10) @ [char_of (48 + n mod 10)])"
  by pat_completeness auto
termination
  by (relation "measure (\<lambda>n. n)") auto

definition number_text :: "int \<Rightarrow> string" where
  \<comment> \<open>Number::toString on an integer\<close>
  "number_text i = (if i < 0 then CHR ''-'' # nat_digits (nat (- i)) else nat_digits (nat i))"

fun join_comma :: "string list \<Rightarrow> string" where
  "join_comma [] = []"
| "join_comma [x] = x"
| "join_comma (x # y # ys) = x @ '','' @ join_comma (y # ys)"

fun JSON_stringify :: "json \<Rightarrow> string" where
  "JSON_stringify JNull = ''null''"
| "JSON_stringify (JBool b) = (if b then ''true'' else ''false'')"
| "JSON_stringify (JNum i) = number_text i"
| "JSON_stringify (JFloat t) = t"
| "JSON_stringify (JStr s) = quote s"
| "JSON_stringify (JArr vs) = ''['' @ join_comma (map JSON_stringify vs) @ '']''"
| "JSON_stringify (JObj kvs) =
     ''{'' @ join_comma (map (\<lambda>(k, v). quote k @ '':'' @ JSON_stringify v) kvs) @ ''}''"

definition client_obj :: "client \<Rightarrow> json" where
  \<comment> \<open>the object literal of the handler: \<open>{id, fullName, age, gender, email, phone, goal, startDate, endDate}\<close>\<close>
  "client_obj c =
     JObj [(''id'', JNum (client_id c)), (''fullName'', JStr (fullName c)),
           (''age'', JStr (age c)), (''gender'', JStr (gender c)),
           (''email'', JStr (email c)), (''phone'', JStr (phone c)),
           (''goal'', JStr (goal c)), (''startDate'', JStr (startDate c)),
           (''endDate'', JStr (endDate c))]"

definition clients_value :: "client list \<Rightarrow> json" where
  \<comment> \<open>the array \<open>clients\<close> as a JavaScript value\<close>
  "clients_value cs = JArr (map client_obj cs)"

definition saveClients :: "json \<Rightarrow> string option" where
  \<comment> \<open>the value of \<open>localStorage\<close> at \<open>STORAGE_KEY\<close> after \<open>setItem\<close>\<close>
  "saveClients clients = Some (JSON_stringify clients)"

section \<open>Persistence: \<open>loadClients\<close>\<close>

text \<open>
  \<open>JSON.parse\<close> as a recursive-descent parser of the JSON grammar. A \<open>\<bslash>u\<close> escape yields
  the code unit modulo 256, strings being kept in that range.
\<close>

definition json_ws :: "char \<Rightarrow> bool" where
  \<comment> \<open>JSON white space: SPACE, TAB, LF, CR\<close>
  "json_ws c = ((of_char c :: nat) \<in> {32, 9, 10, 13})"

definition skip_ws :: "string \<Rightarrow> string" where
  "skip_ws s = dropWhile json_ws s"

definition hex_val :: "char \<Rightarrow> nat option" where
  "hex_val c =
     (let n = (of_char c :: nat) in
      if 48 \<le> n \<and> n \<le> 57 then Some (n - 48)
      else if 97 \<le> n \<and> n \<le> 102 then Some (n - 87)
      else if 65 \<le> n \<and> n \<le> 70 then Some (n - 55)
      else None)"

definition unescape :: "char \<Rightarrow> char option" where
  "unescape e =
     (if e = CHR 0x22 then Some (CHR 0x22)
      else if e = CHR 0x5C then Some (CHR 0x5C)
      else if e = CHR ''/'' then Some (CHR ''/'')
      else if e = CHR ''b'' then Some (CHR 0x08)
      else if e = CHR ''f'' then Some (CHR 0x0C)
      else if e = CHR ''n'' then Some (CHR 0x0A)
      else if e = CHR ''r'' then Some (CHR 0x0D)
      else if e = CHR ''t'' then Some (CHR 0x09)
      else None)"

definition cons_result :: "'a \<Rightarrow> ('a list \<times> string) option \<Rightarrow> ('a list \<times> string) option" where
  "cons_result x res = (case res of None \<Rightarrow> None | Some (xs, rest) \<Rightarrow> Some (x # xs, rest))"

fun parse_chars :: "string \<Rightarrow> (string \<times> string) option" where
  "parse_chars [] = None"
| "parse_chars (c # cs) =
     (if c = CHR 0x22 then Some ([], cs)
      else if c = CHR 0x5C then
        (case cs of
           [] \<Rightarrow> None
         | e # r \<Rightarrow>
             if e = CHR ''u'' then
               (case map hex_val (take 4 r) of
                  [Some h1, Some h2, Some h3, Some h4] \<Rightarrow>
                    cons_result (char_of (((h1 * 16 + h2) * 16 + h3) * 16 + h4))
                      (parse_chars (drop 4 r))
                | _ \<Rightarrow> None)
             else
               (case unescape e of
                  None \<Rightarrow> None
                | Some ch \<Rightarrow> cons_result ch (parse_chars r)))
      else if (of_char c :: nat) < 32 then None
      else cons_result c (parse_chars cs))"

text \<open>
  A number token: an optional minus, an integer part without a leading zero, an optional
  fraction and an optional exponent. \<open>None\<close> is a syntax error.
\<close>

definition parse_digits :: "string \<Rightarrow> (string \<times> string) option" where
  \<comment> \<open>one or more digits\<close>
  "parse_digits s =
     (if takeWhile is_digit s = [] then None
      else Some (takeWhile is_digit s, dropWhile is_digit s))"

fun parse_int_part :: "string \<Rightarrow> (string \<times> string) option" where
  "parse_int_part [] = None"
| "parse_int_part (c # s) = (if c = CHR ''0'' then Some (''0'', s) else parse_digits (c # s))"

fun parse_frac :: "string \<Rightarrow> (string \<times> string) option" where
  "parse_frac [] = Some ([], [])"
| "parse_frac (c # s) =
     (if c = CHR ''.'' then
        (case parse_digits s of None \<Rightarrow> None | Some (ds, r) \<Rightarrow> Some (c # ds, r))
      else Some ([], c # s))"

fun parse_sign :: "string \<Rightarrow> string \<times> string" where
  "parse_sign [] = ([], [])"
| "parse_sign (c # s) = (if c = CHR ''+'' \<or> c = CHR ''-'' then ([c], s) else ([], c # s))"

fun parse_exp :: "string \<Rightarrow> (string \<times> string) option" where
  "parse_exp [] = Some ([], [])"
| "parse_exp (c # s) =
     (if c = CHR ''e'' \<or> c = CHR ''E'' then
        (case parse_digits (snd (parse_sign s)) of
           None \<Rightarrow> None
         | Some (ds, r) \<Rightarrow> Some (c # fst (parse_sign s) @ ds, r))
      else Some ([], c # s))"

fun parse_minus :: "string \<Rightarrow> string \<times> string" where
  "parse_minus [] = ([], [])"
| "parse_minus (c # s) = (if c = CHR ''-'' then ([c], s) else ([], c # s))"

definition parse_number :: "string \<Rightarrow> (json \<times> string) option" where
  "parse_number s =
     (case parse_int_part (snd (parse_minus s)) of
        None \<Rightarrow> None
      | Some (ip, s2) \<Rightarrow>
          (case parse_frac s2 of
             None \<Rightarrow> None
           | Some (fp, s3) \<Rightarrow>
               (case parse_exp s3 of
                  None \<Rightarrow> None
                | Some (ep, s4) \<Rightarrow>
                    if fp = [] \<and> ep = [] then
                      Some (JNum (if fst (parse_minus s) = [] then int (digits_val ip)
                                  else - int (digits_val ip)), s4)
                    else Some (JFloat (fst (parse_minus s) @ ip @ fp @ ep), s4))))"

fun obj_put :: "string \<Rightarrow> json \<Rightarrow> (string \<times> json) list \<Rightarrow> (string \<times> json) list" where
  \<comment> \<open>a repeated key keeps its place and takes the later value\<close>
  "obj_put k v [] = [(k, v)]"
| "obj_put k v ((k', v') # kvs) =
     (if k' = k then (k, v) # kvs else (k', v') # obj_put k v kvs)"

definition make_object :: "(string \<times> json) list \<Rightarrow> (string \<times> json) list" where
  "make_object kvs = foldl (\<lambda>obj (k, v). obj_put k v obj) [] kvs"

text \<open>
  The recursive descent over values, array elements and object members. The first argument
  bounds the number of nested calls; \<open>JSON_parse\<close> starts with a bound that no text
  exhausts (lemma \<open>JSON_parse_enough\<close> below), so that \<open>None\<close> is a syntax error.
\<close>

fun parse_value :: "nat \<Rightarrow> string \<Rightarrow> (json \<times> string) option"
  and parse_elems :: "nat \<Rightarrow> string \<Rightarrow> (json list \<times> string) option"
  and parse_members :: "nat \<Rightarrow> string \<Rightarrow> ((string \<times> json) list \<times> string) option" where
  "parse_value 0 s = None"
| "parse_value (Suc n) s =
     (case skip_ws s of
        [] \<Rightarrow> None
      | c # r \<Rightarrow>
          if c = CHR 0x22 then
            (case parse_chars r of None \<Rightarrow> None | Some (x, r') \<Rightarrow> Some (JStr x, r'))
          else if c = CHR ''['' then
            (case skip_ws r of
               [] \<Rightarrow> None
             | c' # r' \<Rightarrow>
                 if c' = CHR '']'' then Some (JArr [], r')
                 else (case parse_elems n (c' # r') of
                         None \<Rightarrow> None
                       | Some (vs, r'') \<Rightarrow> Some (JArr vs, r'')))
          else if c = CHR ''{'' then
            (case skip_ws r of
               [] \<Rightarrow> None
             | c' # r' \<Rightarrow>
                 if c' = CHR ''}'' then Some (JObj [], r')
                 else (case parse_members n (c' # r') of
                         None \<Rightarrow> None
                       | Some (kvs, r'') \<Rightarrow> Some (JObj (make_object kvs), r'')))
          else if prefix ''true'' (c # r) then Some (JBool True, drop 4 (c # r))
          else if prefix ''false'' (c # r) then Some (JBool False, drop 5 (c # r))
          else if prefix ''null'' (c # r) then Some (JNull, drop 4 (c # r))
          else parse_number (c # r))"
| "parse_elems 0 s = None"
| "parse_elems (Suc n) s =
     (case parse_value n s of
        None \<Rightarrow> None
      | Some (v, r) \<Rightarrow>
          (case skip_ws r of
             [] \<Rightarrow> None
           | c # r' \<Rightarrow>
               if c = CHR '']'' then Some ([v], r')
               else if c = CHR '','' then cons_result v (parse_elems n r')
               else None))"
| "parse_members 0 s = None"
| "parse_members (Suc n) s =
     (case skip_ws s of
        [] \<Rightarrow> None
      | c # r \<Rightarrow>
          if c \<noteq> CHR 0x22 then None
          else
            (case parse_chars r of
               None \<Rightarrow> None
             | Some (k, r1) \<Rightarrow>
                 (case skip_ws r1 of
                    [] \<Rightarrow> None
                  | c1 # r2 \<Rightarrow>
                      if c1 \<noteq> CHR '':'' then None
                      else
                        (case parse_value n r2 of
                           None \<Rightarrow> None
                         | Some (v, r3) \<Rightarrow>
                             (case skip_ws r3 of
                                [] \<Rightarrow> None
                              | c3 # r4 \<Rightarrow>
                                  if c3 = CHR ''}'' then Some ([(k, v)], r4)
                                  else if c3 = CHR '','' then
                                    cons_result (k, v) (parse_members n r4)
                                  else None)))))"

definition JSON_parse :: "string \<Rightarrow> json option" where
  \<comment> \<open>\<open>None\<close> is the SyntaxError\<close>
  "JSON_parse s =
     (case parse_value (2 * length s + 2) s of
        None \<Rightarrow> None
      | Some (v, r) \<Rightarrow> if skip_ws r = [] then Some v else None)"

definition loadClients :: "string option \<Rightarrow> json \<times> string list" where
  \<comment> \<open>the value returned and what is written to the console\<close>
  "loadClients stored =
     (case stored of
        None \<Rightarrow> (JArr [], [])
      | Some s \<Rightarrow>
          if s = [] then (JArr [], [])
          else (case JSON_parse s of
                  Some v \<Rightarrow> (v, [])
                | None \<Rightarrow> (JArr [], [''Could not parse stored clients''])))"

subsection \<open>The values that print and parse back\<close>

text \<open>
  Values without uninterpreted number literals whose objects have pairwise distinct keys;
  what follows a printed value inside a text (\<open>terminated\<close>); and the fact that a client
  array is such a value.
\<close>

fun wf_json :: "json \<Rightarrow> bool" where
  "wf_json (JFloat t) = False"
| "wf_json (JArr vs) = list_all wf_json vs"
| "wf_json (JObj kvs) = (distinct (map fst kvs) \<and> list_all (\<lambda>kv. wf_json (snd kv)) kvs)"
| "wf_json v = True"

definition terminated :: "string \<Rightarrow> bool" where
  "terminated rest = (rest = [] \<or> hd rest = CHR '','' \<or> hd rest = CHR '']'' \<or> hd rest = CHR ''}'')"

section \<open>Validators\<close>

definition email_char :: "char \<Rightarrow> bool" where
  \<comment> \<open>the class \<open>[^\<bslash>s@]\<close>\<close>
  "email_char c = (\<not> js_ws c \<and> c \<noteq> CHR ''@'')"

definition emailRegex_test :: "string \<Rightarrow> bool" where
  \<comment> \<open>\<open>/^[^\<bslash>s@]+@[^\<bslash>s@]+\<bslash>.(com|edu)$/i\<close>: the first group ends at the first character outside
      the class, which must be the \<open>@\<close>; the rest is in the class throughout and ends in a dot and
      the suffix, with at least one character before the dot\<close>
  "emailRegex_test s =
     (let local = takeWhile email_char s; rest = dropWhile email_char s in
      local \<noteq> [] \<and>
      (case rest of
         [] \<Rightarrow> False
       | c # d \<Rightarrow> c = CHR ''@'' \<and> list_all email_char d \<and> 5 \<le> length d \<and>
                  d ! (length d - 4) = CHR ''.'' \<and>
                  toLowerCase (drop (length d - 3) d) \<in> {''com'', ''edu''}))"

definition isValidEmail :: "string \<Rightarrow> bool" where
  "isValidEmail email' = (if email' = [] then False else emailRegex_test (trim email'))"

definition parseInt10 :: "string \<Rightarrow> int option" where
  \<comment> \<open>\<open>parseInt(s, 10)\<close>: leading white space, a sign, the longest prefix of digits; \<open>None\<close> is NaN\<close>
  "parseInt10 s =
     (let t = dropWhile js_ws s;
          neg = (t \<noteq> [] \<and> hd t = CHR ''-'');
          u = (if t \<noteq> [] \<and> (hd t = CHR ''-'' \<or> hd t = CHR ''+'') then tl t else t);
          ds = takeWhile is_digit u
      in if ds = [] then None
         else Some (if neg then - int (digits_val ds) else int (digits_val ds)))"

definition isValidAge :: "string \<Rightarrow> bool" where
  "isValidAge age' = (if age' = [] then False
     else (case parseInt10 age' of None \<Rightarrow> False | Some ageNum \<Rightarrow> 5 \<le> ageNum \<and> ageNum \<le> 120))"

definition isValidPhone :: "string \<Rightarrow> bool" where
  "isValidPhone phone' = (if phone' = [] then False
     else (let digits = filter is_digit phone' in length digits = 11))"

subsection \<open>Dates\<close>

text \<open>
  A \<open>Date\<close> is its time value: milliseconds since the epoch in UTC, or \<open>None\<close> for an
  Invalid Date (NaN). The environment gives the clock (\<open>Date.now()\<close>, also the value of
  \<open>new Date()\<close>) and the local time zone as a fixed offset in minutes east of UTC.

  \<open>new Date(s)\<close> is modelled on the strings a date input yields: the date-only form
  \<open>YYYY-MM-DD\<close> of a calendar date, which denotes midnight UTC of that date. Every other
  string is an Invalid Date here.
\<close>

record env =
  now :: int
  tzOffset :: int

definition msPerDay :: int where
  "msPerDay = 86400000"

definition days_from_civil :: "int \<Rightarrow> int \<Rightarrow> int \<Rightarrow> int" where
  \<comment> \<open>days from 1970-01-01 to the given year, month, day of the proleptic Gregorian calendar\<close>
  "days_from_civil y m d =
     (let y' = (if m \<le> 2 then y - 1 else y);
          era = y' div 400;
          yoe = y' - era * 400;
          mp = (m + 9) mod 12;
          doy = (153 * mp + 2) div 5 + d - 1;
          doe = yoe * 365 + yoe div 4 - yoe div 100 + doy
      in era * 146097 + doe - 719468)"

definition is_leap :: "int \<Rightarrow> bool" where
  "is_leap y = (y mod 4 = 0 \<and> (y mod 100 \<noteq> 0 \<or> y mod 400 = 0))"

definition days_in_month :: "int \<Rightarrow> int \<Rightarrow> int" where
  "days_in_month y m =
     (if m = 2 then (if is_leap y then 29 else 28)
      else if m \<in> {4, 6, 9, 11} then 30 else 31)"

definition parse_ymd :: "string \<Rightarrow> (int \<times> int \<times> int) option" where
  "parse_ymd s =
     (if length s = 10 \<and> s ! 4 = CHR ''-'' \<and> s ! 7 = CHR ''-''
         \<and> list_all is_digit (take 4 s) \<and> list_all is_digit (take 2 (drop 5 s))
         \<and> list_all is_digit (drop 8 s)
      then (let y = int (digits_val (take 4 s));
                m = int (digits_val (take 2 (drop 5 s)));
                d = int (digits_val (drop 8 s))
            in if 1 \<le> m \<and> m \<le> 12 \<and> 1 \<le> d \<and> d \<le> days_in_month y m
               then Some (y, m, d) else None)
      else None)"

definition new_Date :: "string \<Rightarrow> int option" where
  "new_Date s = (case parse_ymd s of
       None \<Rightarrow> None
     | Some (y, m, d) \<Rightarrow> Some (days_from_civil y m d * msPerDay))"

definition setHours0 :: "env \<Rightarrow> int option \<Rightarrow> int option" where
  \<comment> \<open>\<open>setHours(0, 0, 0, 0)\<close>: midnight, in local time, of the local day the time value lies in\<close>
  "setHours0 e t = (case t of
       None \<Rightarrow> None
     | Some v \<Rightarrow> (let local = v + tzOffset e * 60000
                  in Some ((local div msPerDay) * msPerDay - tzOffset e * 60000)))"

definition isDateNotInPast :: "env \<Rightarrow> string \<Rightarrow> bool" where
  "isDateNotInPast e dateString =
     (if dateString = [] then False
      else (let inputDate = new_Date dateString;
                today = Some (now e);
                today = setHours0 e today;
                inputDate = setHours0 e inputDate
            in (case (inputDate, today) of
                  (Some i, Some t) \<Rightarrow> i \<ge> t
                | _ \<Rightarrow> False)))"

definition isEndDateAfterStartDate :: "string \<Rightarrow> string \<Rightarrow> bool" where
  "isEndDateAfterStartDate startDate' endDate' =
     (if startDate' = [] \<or> endDate' = [] then False
      else (case (new_Date startDate', new_Date endDate') of
              (Some start, Some end) \<Rightarrow> end > start
            | _ \<Rightarrow> False))"

section \<open>Application state and UI helpers\<close>

text \<open>
  The ambient variables of the main closure (\<open>clients\<close>, \<open>editingId\<close>,
  \<open>currentViewedId\<close>), the storage entry at \<open>STORAGE_KEY\<close>, and what the handlers
  write to the page: the form's values, the alerts shown (in order), the console, the rows of
  the table with its count text, the client shown in the detail view, the URL fragment and
  the two button states.
\<close>

record app_state =
  clients :: "client list"
  editingId :: "int option"
  currentViewedId :: "int option"
  storage :: "string option"
  form :: form
  alerts :: "string list"
  console :: "string list"
  table :: "client list"
  countText :: string
  viewed :: "client option"
  hash :: string
  addBtnText :: string
  cancelShown :: bool

definition alert :: "string \<Rightarrow> app_state \<Rightarrow> app_state" where
  "alert msg st = st\<lparr>alerts := alerts st @ [msg]\<rparr>"

definition console_warn :: "string \<Rightarrow> app_state \<Rightarrow> app_state" where
  "console_warn msg st = st\<lparr>console := console st @ [msg]\<rparr>"

definition updateClientCount :: "nat \<Rightarrow> string" where
  "updateClientCount count' =
     (if count' = 0 then '' (no clients to show)''
      else if count' = 1 then '' (1 client shown)''
      else '' ('' @ nat_digits count' @ '' clients shown)'')"

definition renderClientTable :: "client list \<Rightarrow> app_state \<Rightarrow> app_state" where
  "renderClientTable cs st = st\<lparr>table := cs, countText := updateClientCount (length cs)\<rparr>"

definition clearForm :: form where
  "clearForm = \<lparr>f_fullName = [], f_age = [], f_gender = [], f_email = [], f_phone = [],
                 f_goal = [], f_goalFree = [], f_startDate = [], f_endDate = []\<rparr>"

definition fillFormFromClient :: "client \<Rightarrow> form" where
  \<comment> \<open>the goal goes into the free-text field, the dropdown is reset\<close>
  "fillFormFromClient c =
     \<lparr>f_fullName = fullName c, f_age = age c, f_gender = gender c, f_email = email c,
      f_phone = phone c, f_goal = [], f_goalFree = goal c,
      f_startDate = startDate c, f_endDate = endDate c\<rparr>"

definition enterAddMode :: "app_state \<Rightarrow> app_state" where
  "enterAddMode st =
     st\<lparr>editingId := None, addBtnText := ''Add Client'', cancelShown := False,
        form := clearForm\<rparr>"

definition enterEditMode :: "client \<Rightarrow> app_state \<Rightarrow> app_state" where
  "enterEditMode c st =
     st\<lparr>editingId := Some (client_id c), form := fillFormFromClient c,
        addBtnText := ''Save Changes'', cancelShown := True, hash := ''#new''\<rparr>"

fun findIndex :: "('a \<Rightarrow> bool) \<Rightarrow> 'a list \<Rightarrow> nat option" where
  \<comment> \<open>\<open>Array.prototype.findIndex\<close>; \<open>None\<close> is -1\<close>
  "findIndex p [] = None"
| "findIndex p (x # xs) = (if p x then Some 0 else map_option Suc (findIndex p xs))"

section \<open>The Add / Save button\<close>

definition finalGoal :: "form \<Rightarrow> string" where
  \<comment> \<open>\<open>goal || goalFree\<close> on the trimmed values: \<open>goal\<close> is the dropdown\<close>
  "finalGoal f = (if trim (f_goal f) \<noteq> [] then trim (f_goal f) else trim (f_goalFree f))"

definition addClientBtn_click :: "env \<Rightarrow> app_state \<Rightarrow> app_state" where
  "addClientBtn_click e st =
     (let fullName' = trim (f_fullName (form st));
          age' = trim (f_age (form st));
          gender' = f_gender (form st);
          email' = trim (f_email (form st));
          phone' = trim (f_phone (form st));
          finalGoal' = finalGoal (form st);
          startDate' = f_startDate (form st);
          endDate' = f_endDate (form st)
      in
      if fullName' = [] \<or> email' = [] \<or> phone' = [] \<or> finalGoal' = []
         \<or> startDate' = [] \<or> endDate' = []
      then alert ''Please fill in all required fields.'' st
      else if \<not> isValidEmail email'
      then alert ''Please enter a valid email address ending in .com or .edu'' st
      else if age' \<noteq> [] \<and> \<not> isValidAge age'
      then alert ''Age must be between 5 and 120 years old.'' st
      else if \<not> isValidPhone phone'
      then alert ''Phone number must be exactly 11 digits.'' st
      else if \<not> isDateNotInPast e startDate'
      then alert ''Membership Start Date cannot be in the past. Please select today or a future date.'' st
      else if \<not> isEndDateAfterStartDate startDate' endDate'
      then alert ''Membership End Date must be after the Start Date.'' st
      else
        (let wasEditing = (editingId st \<noteq> None);
             st1 =
               (if \<not> wasEditing then
                  (let client = \<lparr>client_id = now e, fullName = fullName', age = age',
                                  gender = gender', email = email', phone = phone',
                                  goal = finalGoal', startDate = startDate',
                                  endDate = endDate'\<rparr>
                   in alert (''New client saved: '' @ fullName client)
                        (st\<lparr>clients := clients st @ [client]\<rparr>))
                else
                  (let st' =
                     (case findIndex (\<lambda>c. Some (client_id c) = editingId st) (clients st) of
                        None \<Rightarrow> st
                      | Some index \<Rightarrow>
                          alert (''Client updated: '' @ fullName')
                            (st\<lparr>clients := (clients st)[index :=
                                 (clients st ! index)\<lparr>fullName := fullName', age := age',
                                    gender := gender', email := email', phone := phone',
                                    goal := finalGoal', startDate := startDate',
                                    endDate := endDate'\<rparr>]\<rparr>))
                   in enterAddMode st'));
             st2 = st1\<lparr>storage := saveClients (clients_value (clients st1))\<rparr>;
             st3 = renderClientTable (clients st2) st2;
             st4 = st3\<lparr>form := clearForm\<rparr>
         in if wasEditing then st4\<lparr>hash := ''#list''\<rparr> else st4))"

definition cancelEditBtn_click :: "app_state \<Rightarrow> app_state" where
  "cancelEditBtn_click st = (enterAddMode st)\<lparr>hash := ''#list''\<rparr>"

section \<open>Search\<close>

definition applySearch :: "string \<Rightarrow> app_state \<Rightarrow> app_state" where
  \<comment> \<open>the first argument is the value of the search input\<close>
  "applySearch searchValue st =
     (let query = toLowerCase (trim searchValue) in
      if query = [] then renderClientTable (clients st) st
      else
        (let filtered = filter (\<lambda>c. fullName c \<noteq> [] \<and>
                                      includes_js (toLowerCase (fullName c)) query) (clients st)
         in renderClientTable filtered st))"

section \<open>Table clicks: view, edit, delete\<close>

text \<open>
  The button a click lands on, with the number read from its \<open>data-id\<close>; the answer to the
  \<open>confirm\<close> prompt is an argument of the handler and is consulted on the delete path only.
\<close>

datatype click_target = DeleteBtn int | EditBtn int | ViewBtn int | Elsewhere

definition tableBody_click :: "bool \<Rightarrow> click_target \<Rightarrow> app_state \<Rightarrow> app_state" where
  "tableBody_click ok target st =
     (case target of
        Elsewhere \<Rightarrow> st
      | DeleteBtn idToDelete \<Rightarrow>
          (case find (\<lambda>c. client_id c = idToDelete) (clients st) of
             None \<Rightarrow> st
           | Some clientToDelete \<Rightarrow>
               if \<not> ok then st
               else
                 (let st1 = st\<lparr>clients := filter (\<lambda>c. client_id c \<noteq> idToDelete) (clients st)\<rparr>;
                      st2 = st1\<lparr>storage := saveClients (clients_value (clients st1))\<rparr>
                  in renderClientTable (clients st2) st2))
      | EditBtn idToEdit \<Rightarrow>
          (case find (\<lambda>c. client_id c = idToEdit) (clients st) of
             None \<Rightarrow> console_warn (''No client found for id '' @ number_text idToEdit) st
           | Some clientToEdit \<Rightarrow> enterEditMode clientToEdit st)
      | ViewBtn idToView \<Rightarrow>
          (case find (\<lambda>c. client_id c = idToView) (clients st) of
             None \<Rightarrow> console_warn (''No client found for id '' @ number_text idToView) st
           | Some clientToView \<Rightarrow>
               st\<lparr>currentViewedId := Some idToView, viewed := Some clientToView,
                  hash := ''#client-view''\<rparr>))"

definition editFromViewBtn_click :: "app_state \<Rightarrow> app_state" where
  \<comment> \<open>"Edit This Client" on the detail view\<close>
  "editFromViewBtn_click st =
     (case currentViewedId st of
        None \<Rightarrow> alert ''No client selected to edit.'' st
      | Some idViewed \<Rightarrow>
          (case find (\<lambda>c. client_id c = idViewed) (clients st) of
             None \<Rightarrow> alert ''Could not find this client to edit.'' st
           | Some clientToEdit \<Rightarrow> enterEditMode clientToEdit st))"

section \<open>Exercise selection\<close>

text \<open>
  An item of the fetched \<open>results\<close> array. \<open>ex_translations\<close> is \<open>None\<close> when the field is
  missing or not an array; a translation's \<open>name\<close> is \<open>None\<close> when missing or null.
\<close>

record translation =
  language :: int
  name :: "string option"

record exercise =
  exercise_id :: int
  ex_translations :: "translation list option"

definition truthy_name :: "translation \<Rightarrow> bool" where
  "truthy_name t = (case name t of None \<Rightarrow> False | Some n \<Rightarrow> n \<noteq> [])"

definition exercisesWithEnglish :: "exercise list \<Rightarrow> exercise list" where
  "exercisesWithEnglish results =
     filter (\<lambda>ex. case ex_translations ex of
                     None \<Rightarrow> False
                   | Some ts \<Rightarrow> list_ex (\<lambda>t. language t = 2 \<and> truthy_name t) ts) results"

definition hasEnglishName :: "exercise \<Rightarrow> bool" where
  "hasEnglishName ex =
     (case ex_translations ex of
        None \<Rightarrow> False
      | Some ts \<Rightarrow>
          (case find (\<lambda>t. language t = 2 \<and> truthy_name t) ts of
             None \<Rightarrow> False
           | Some englishTranslation \<Rightarrow>
               (case name englishTranslation of
                  None \<Rightarrow> False
                | Some n \<Rightarrow> n \<noteq> [] \<and> trim n \<noteq> [])))"

datatype js_error = TypeError

definition splice1 :: "nat \<Rightarrow> 'a list \<Rightarrow> 'a list" where
  \<comment> \<open>\<open>splice(i, 1)\<close>\<close>
  "splice1 i xs = take i xs @ drop (Suc i) xs"

text \<open>
  The selection loop. \<open>rnd k\<close> is the value \<open>Math.random()\<close> returns in iteration \<open>k\<close>.
  Reading \<open>translations\<close> of an element outside the array raises a TypeError.
\<close>

function select_loop ::
  "(nat \<Rightarrow> real) \<Rightarrow> nat \<Rightarrow> exercise list \<Rightarrow> exercise list \<Rightarrow> js_error + exercise list" where
  "select_loop rnd k selectedExercises availableExercises =
     (if length selectedExercises < 5 \<and> availableExercises \<noteq> [] then
        (if 0 \<le> \<lfloor>rnd k * of_nat (length availableExercises)\<rfloor>
             \<and> nat \<lfloor>rnd k * of_nat (length availableExercises)\<rfloor> < length availableExercises
         then
           select_loop rnd (Suc k)
             (if hasEnglishName
                   (availableExercises ! nat \<lfloor>rnd k * of_nat (length availableExercises)\<rfloor>)
              then selectedExercises
                     @ [availableExercises ! nat \<lfloor>rnd k * of_nat (length availableExercises)\<rfloor>]
              else selectedExercises)
             (splice1 (nat \<lfloor>rnd k * of_nat (length availableExercises)\<rfloor>) availableExercises)
         else Inl TypeError)
      else Inr selectedExercises)"
  by pat_completeness auto
termination
  by (relation "measure (\<lambda>(rnd, k, sel, av). length av)") (auto simp: splice1_def)

definition selectExercises :: "(nat \<Rightarrow> real) \<Rightarrow> exercise list \<Rightarrow> js_error + exercise list" where
  \<comment> \<open>filter, copy, loop: the selection of one fetch\<close>
  "selectExercises rnd results = select_loop rnd 0 [] (exercisesWithEnglish results)"

section \<open>The validation checks, in their fixed order\<close>

text \<open>
  The checks of the Add / Save handler, named in the order the handler makes them. For each
  check, \<open>check_fails\<close> is the condition of the handler's own \<open>if\<close>, with the validator the
  handler calls there, and \<open>message\<close> is the text it alerts. A submission is valid when it
  passes all of the handler's checks.
\<close>

datatype rule = Presence | EmailFormat | AgeRange | PhoneFormat | StartDateCheck | EndDateCheck

definition rule_order :: "rule list" where
  "rule_order = [Presence, EmailFormat, AgeRange, PhoneFormat, StartDateCheck, EndDateCheck]"

fun check_fails :: "env \<Rightarrow> form \<Rightarrow> rule \<Rightarrow> bool" where
  "check_fails e f Presence =
     (trim (f_fullName f) = [] \<or> trim (f_email f) = [] \<or> trim (f_phone f) = []
      \<or> finalGoal f = [] \<or> f_startDate f = [] \<or> f_endDate f = [])"
| "check_fails e f EmailFormat = (\<not> isValidEmail (trim (f_email f)))"
| "check_fails e f AgeRange = (trim (f_age f) \<noteq> [] \<and> \<not> isValidAge (trim (f_age f)))"
| "check_fails e f PhoneFormat = (\<not> isValidPhone (trim (f_phone f)))"
| "check_fails e f StartDateCheck = (\<not> isDateNotInPast e (f_startDate f))"
| "check_fails e f EndDateCheck = (\<not> isEndDateAfterStartDate (f_startDate f) (f_endDate f))"

fun message :: "rule \<Rightarrow> string" where
  "message Presence = ''Please fill in all required fields.''"
| "message EmailFormat = ''Please enter a valid email address ending in .com or .edu''"
| "message AgeRange = ''Age must be between 5 and 120 years old.''"
| "message PhoneFormat = ''Phone number must be exactly 11 digits.''"
| "message StartDateCheck =
     ''Membership Start Date cannot be in the past. Please select today or a future date.''"
| "message EndDateCheck = ''Membership End Date must be after the Start Date.''"

definition first_failed_check :: "env \<Rightarrow> form \<Rightarrow> rule option" where
  "first_failed_check e f = find (check_fails e f) rule_order"

definition valid_submission :: "env \<Rightarrow> form \<Rightarrow> bool" where
  "valid_submission e f = (first_failed_check e f = None)"

text \<open>
  The rules as the specification states them, to be compared with the handler's checks. The
  start-date rule is stated on calendar dates, "must be \<open>\<ge>\<close> today's date, compared at day
  granularity": it is violated when the date the string denotes is before the local date of
  the clock (or when the string denotes no date), and it does not refer to
  \<open>isDateNotInPast\<close>. For presence, e-mail, age, phone and end date the specification
  describes the handler's conditions as they are.
\<close>

definition local_day :: "env \<Rightarrow> int" where
  \<comment> \<open>today's date in local time, in days since 1970-01-01\<close>
  "local_day e = (now e + tzOffset e * 60000) div msPerDay"

definition start_before_today :: "env \<Rightarrow> string \<Rightarrow> bool" where
  "start_before_today e s =
     (case parse_ymd s of
        None \<Rightarrow> True
      | Some (y, m, d) \<Rightarrow> days_from_civil y m d < local_day e)"

definition spec_violated :: "env \<Rightarrow> form \<Rightarrow> rule \<Rightarrow> bool" where
  "spec_violated e f r =
     (if r = StartDateCheck then start_before_today e (f_startDate f) else check_fails e f r)"

definition spec_first_violation :: "env \<Rightarrow> form \<Rightarrow> rule option" where
  "spec_first_violation e f = find (spec_violated e f) rule_order"

text \<open>The record a valid submission of the form \<open>f\<close> writes, apart from the id.\<close>

definition submitted :: "form \<Rightarrow> client \<Rightarrow> client" where
  "submitted f c =
     c\<lparr>fullName := trim (f_fullName f), age := trim (f_age f), gender := f_gender f,
       email := trim (f_email f), phone := trim (f_phone f), goal := finalGoal f,
       startDate := f_startDate f, endDate := f_endDate f\<rparr>"

section \<open>Case-insensitive containment\<close>

text \<open>
  The specification's search criterion: \<open>name\<close> contains \<open>query\<close> as a substring, case
  not distinguished. It is compared with the filter of \<open>applySearch\<close> below.
\<close>

definition contains_ci :: "string \<Rightarrow> string \<Rightarrow> bool" where
  "contains_ci query s = sublist (toLowerCase query) (toLowerCase s)"

section \<open>Example inputs\<close>

text \<open>
  The clock at 2026-11-02 12:00 UTC in a browser on UTC, the form of the specification's
  scenario A with both goal fields filled in, and states that hold it.
\<close>

definition env_utc :: env where
  "env_utc = \<lparr>now = 1793620800000, tzOffset = 0\<rparr>"

definition form_jane :: form where
  "form_jane =
     \<lparr>f_fullName = ''Jane Doe'', f_age = ''30'', f_gender = ''female'',
      f_email = ''jane@x.com'', f_phone = ''(555) 123-4567x1'',
      f_goal = ''Lose weight'', f_goalFree = ''Run a marathon'',
      f_startDate = ''2026-11-02'', f_endDate = ''2026-11-09''\<rparr>"

text \<open>The same form with the name typed with blanks around it.\<close>

definition form_padded :: form where
  "form_padded = form_jane\<lparr>f_fullName := ''  Jane Doe ''\<rparr>"

text \<open>The same form with the end date on the start date, both today's date.\<close>

definition form_same_day :: form where
  "form_same_day = form_jane\<lparr>f_endDate := ''2026-11-02''\<rparr>"

definition client_bob :: client where
  "client_bob =
     \<lparr>client_id = 1793620800000, fullName = ''Bob Ray'', age = [], gender = [],
      email = ''bob@y.edu'', phone = ''12345678901'', goal = ''Strength'',
      startDate = ''2026-12-01'', endDate = ''2027-01-01''\<rparr>"

definition state_of :: "client list \<Rightarrow> int option \<Rightarrow> form \<Rightarrow> app_state" where
  "state_of cs ed f =
     \<lparr>clients = cs, editingId = ed, currentViewedId = None, storage = None, form = f,
      alerts = [], console = [], table = cs, countText = updateClientCount (length cs),
      viewed = None, hash = [], addBtnText = ''Add Client'', cancelShown = False\<rparr>"

definition client_jane :: client where
  "client_jane =
     \<lparr>client_id = 1793620800123, fullName = ''Jane Doe'', age = ''30'', gender = ''female'',
      email = ''jane@x.com'', phone = ''(555) 123-4567x1'', goal = ''Lose weight'',
      startDate = ''2026-11-02'', endDate = ''2026-11-09''\<rparr>"

text \<open>The same instant plus five hours, 2026-11-02 12:00 local time in a browser on UTC-5.\<close>

definition env_new_york :: env where
  "env_new_york = \<lparr>now = 1793638800000, tzOffset = - 300\<rparr>"

text \<open>A fetched result set: two items with an English name, one with a blank one, one without.\<close>

definition exercise_squat :: exercise where
  "exercise_squat =
     \<lparr>exercise_id = 1, ex_translations = Some [\<lparr>language = 1, name = Some ''Kniebeuge''\<rparr>,
                                                 \<lparr>language = 2, name = Some ''Squat''\<rparr>]\<rparr>"

definition exercise_plank :: exercise where
  "exercise_plank =
     \<lparr>exercise_id = 2, ex_translations = Some [\<lparr>language = 2, name = Some ''Plank''\<rparr>]\<rparr>"

definition exercise_blank :: exercise where
  "exercise_blank =
     \<lparr>exercise_id = 3, ex_translations = Some [\<lparr>language = 2, name = Some '' ''\<rparr>]\<rparr>"

definition exercise_german :: exercise where
  "exercise_german =
     \<lparr>exercise_id = 4, ex_translations = Some [\<lparr>language = 1, name = Some ''Liegestuetz''\<rparr>]\<rparr>"

definition results_example :: "exercise list" where
  "results_example = [exercise_squat, exercise_german, exercise_blank, exercise_plank]"

definition rnd_half :: "nat \<Rightarrow> real" where
  "rnd_half k = 1 / 2"

section \<open>The Add / Save button: what a click does\<close>

lemma first_failed_check_cases:
  assumes "first_failed_check e f = Some r"
  obtains
    (presence) "r = Presence" "check_fails e f Presence"
  | (email) "r = EmailFormat" "\<not> check_fails e f Presence" "check_fails e f EmailFormat"
  | (age) "r = AgeRange" "\<not> check_fails e f Presence" "\<not> check_fails e f EmailFormat"
      "check_fails e f AgeRange"
  | (phone) "r = PhoneFormat" "\<not> check_fails e f Presence" "\<not> check_fails e f EmailFormat"
      "\<not> check_fails e f AgeRange" "check_fails e f PhoneFormat"
  | (start) "r = StartDateCheck" "\<not> check_fails e f Presence" "\<not> check_fails e f EmailFormat"
      "\<not> check_fails e f AgeRange" "\<not> check_fails e f PhoneFormat" "check_fails e f StartDateCheck"
  | (enddate) "r = EndDateCheck" "\<not> check_fails e f Presence" "\<not> check_fails e f EmailFormat"
      "\<not> check_fails e f AgeRange" "\<not> check_fails e f PhoneFormat"
      "\<not> check_fails e f StartDateCheck" "check_fails e f EndDateCheck"
  using assms unfolding first_failed_check_def rule_order_def
  by (simp only: find.simps split: if_splits) auto

lemma click_invalid:
  assumes "first_failed_check e (form st) = Some r"
  shows "addClientBtn_click e st = alert (message r) st"
  using assms
proof (cases rule: first_failed_check_cases)
  case presence
  then show ?thesis by (simp add: addClientBtn_click_def Let_def)
next
  case email
  then show ?thesis by (simp add: addClientBtn_click_def Let_def)
next
  case age
  then show ?thesis by (simp add: addClientBtn_click_def Let_def)
next
  case phone
  then show ?thesis by (auto simp: addClientBtn_click_def Let_def)
next
  case start
  then show ?thesis by (auto simp: addClientBtn_click_def Let_def)
next
  case enddate
  then show ?thesis by (auto simp: addClientBtn_click_def Let_def)
qed

lemma valid_submission_iff:
  "valid_submission e f \<longleftrightarrow>
     trim (f_fullName f) \<noteq> [] \<and> trim (f_email f) \<noteq> [] \<and> trim (f_phone f) \<noteq> []
     \<and> finalGoal f \<noteq> [] \<and> f_startDate f \<noteq> [] \<and> f_endDate f \<noteq> []
     \<and> isValidEmail (trim (f_email f))
     \<and> (trim (f_age f) = [] \<or> isValidAge (trim (f_age f)))
     \<and> isValidPhone (trim (f_phone f)) \<and> isDateNotInPast e (f_startDate f)
     \<and> isEndDateAfterStartDate (f_startDate f) (f_endDate f)"
  by (auto simp: valid_submission_def first_failed_check_def rule_order_def)

lemma click_add:
  assumes "valid_submission e (form st)" and "editingId st = None"
  shows "addClientBtn_click e st =
     st\<lparr>clients := clients st @ [submitted (form st) \<lparr>client_id = now e, fullName = [],
            age = [], gender = [], email = [], phone = [], goal = [], startDate = [],
            endDate = []\<rparr>],
        alerts := alerts st @ [''New client saved: '' @ trim (f_fullName (form st))],
        storage := saveClients (clients_value (clients st @ [submitted (form st)
            \<lparr>client_id = now e, fullName = [], age = [], gender = [], email = [],
             phone = [], goal = [], startDate = [], endDate = []\<rparr>])),
        table := clients st @ [submitted (form st) \<lparr>client_id = now e, fullName = [],
            age = [], gender = [], email = [], phone = [], goal = [], startDate = [],
            endDate = []\<rparr>],
        countText := updateClientCount (Suc (length (clients st))),
        form := clearForm\<rparr>"
  using assms unfolding valid_submission_iff
  by (auto simp: addClientBtn_click_def Let_def alert_def renderClientTable_def submitted_def)

lemma click_edit_found:
  assumes "valid_submission e (form st)" and "editingId st = Some i"
    and "findIndex (\<lambda>c. Some (client_id c) = Some i) (clients st) = Some k"
  shows "addClientBtn_click e st =
     st\<lparr>clients := (clients st)[k := submitted (form st) (clients st ! k)],
        alerts := alerts st @ [''Client updated: '' @ trim (f_fullName (form st))],
        editingId := None, addBtnText := ''Add Client'', cancelShown := False,
        storage := saveClients (clients_value
                     ((clients st)[k := submitted (form st) (clients st ! k)])),
        table := (clients st)[k := submitted (form st) (clients st ! k)],
        countText := updateClientCount (length (clients st)),
        form := clearForm, hash := ''#list''\<rparr>"
  using assms unfolding valid_submission_iff
  by (auto simp: addClientBtn_click_def Let_def alert_def renderClientTable_def submitted_def
      enterAddMode_def)

lemma click_edit_missing:
  assumes "valid_submission e (form st)" and "editingId st = Some i"
    and "findIndex (\<lambda>c. Some (client_id c) = Some i) (clients st) = None"
  shows "addClientBtn_click e st =
     st\<lparr>editingId := None, addBtnText := ''Add Client'', cancelShown := False,
        storage := saveClients (clients_value (clients st)),
        table := clients st,
        countText := updateClientCount (length (clients st)),
        form := clearForm, hash := ''#list''\<rparr>"
  using assms unfolding valid_submission_iff
  by (auto simp: addClientBtn_click_def Let_def alert_def renderClientTable_def
      enterAddMode_def)

lemma findIndex_Some:
  "findIndex p xs = Some k \<Longrightarrow> k < length xs \<and> p (xs ! k) \<and> (\<forall>j<k. \<not> p (xs ! j))"
proof (induction xs arbitrary: k)
  case Nil
  then show ?case by simp
next
  case (Cons x xs)
  show ?case
  proof (cases "p x")
    case True
    with Cons.prems show ?thesis by simp
  next
    case False
    with Cons.prems obtain k' where k': "findIndex p xs = Some k'" "k = Suc k'"
      by auto
    from Cons.IH[OF k'(1)] False k'(2) show ?thesis
      by (auto simp: nth_Cons split: nat.splits)
  qed
qed

lemma findIndex_None: "findIndex p xs = None \<longleftrightarrow> (\<forall>x\<in>set xs. \<not> p x)"
  by (induction xs) auto


lemma findIndex_id_Some:
  assumes "i \<in> client_id ` set cs"
  shows "\<exists>k. findIndex (\<lambda>c. Some (client_id c) = Some i) cs = Some k"
proof (cases "findIndex (\<lambda>c. Some (client_id c) = Some i) cs")
  case None
  with assms show ?thesis by (auto simp: findIndex_None)
next
  case (Some k)
  then show ?thesis by blast
qed

lemma state_of_simps:
  "clients (state_of cs ed f) = cs" "editingId (state_of cs ed f) = ed"
  "form (state_of cs ed f) = f" "alerts (state_of cs ed f) = []"
  "storage (state_of cs ed f) = None" "console (state_of cs ed f) = []"
  by (simp_all add: state_of_def)

lemma valid_jane: "valid_submission env_utc form_jane"
  by code_simp

lemma goal_fields_jane:
  "trim (f_goal form_jane) = ''Lose weight''" "trim (f_goalFree form_jane) = ''Run a marathon''"
  by code_simp+

lemma submitted_goal: "goal (submitted f c) = finalGoal f"
  by (simp add: submitted_def)

lemma submitted_id: "client_id (submitted f c) = client_id c"
  by (simp add: submitted_def)

section \<open>Which goal field is stored\<close>

text \<open>
  Claim C1 as stated fails: with the dropdown set to \<open>Lose weight\<close> and the free text to
  \<open>Run a marathon\<close>, both non-empty after trimming, the record appended by a valid
  submission holds the dropdown value, not the free text.
\<close>

theorem free_text_goal_counterexample:
  "valid_submission env_utc form_jane \<and> trim (f_goal form_jane) \<noteq> []
   \<and> trim (f_goalFree form_jane) \<noteq> []
   \<and> goal (last (clients (addClientBtn_click env_utc (state_of [] None form_jane))))
       \<noteq> trim (f_goalFree form_jane)"
  using click_add[of env_utc "state_of [] None form_jane"] valid_jane
  by (simp add: state_of_simps submitted_goal finalGoal_def goal_fields_jane)

text \<open>
  Claim C1, amended: for every valid submission in which both the dropdown value and the
  free-text goal are non-empty after trimming, the goal stored in the resulting record (the
  appended one in Add mode, the edited one in Edit mode) is the trimmed dropdown value.
\<close>

theorem dropdown_goal_wins:
  assumes "valid_submission e (form st)"
    and "trim (f_goal (form st)) \<noteq> []" and "trim (f_goalFree (form st)) \<noteq> []"
  shows "(editingId st = None \<longrightarrow>
            goal (last (clients (addClientBtn_click e st))) = trim (f_goal (form st)))
       \<and> (\<forall>i k. editingId st = Some i
              \<and> findIndex (\<lambda>c. Some (client_id c) = Some i) (clients st) = Some k \<longrightarrow>
            goal (clients (addClientBtn_click e st) ! k) = trim (f_goal (form st)))"
proof (intro conjI impI allI)
  assume "editingId st = None"
  from click_add[OF assms(1) this] assms(2)
  show "goal (last (clients (addClientBtn_click e st))) = trim (f_goal (form st))"
    by (simp add: submitted_goal finalGoal_def)
next
  fix i k
  assume h: "editingId st = Some i
     \<and> findIndex (\<lambda>c. Some (client_id c) = Some i) (clients st) = Some k"
  then have "k < length (clients st)"
    using findIndex_Some by blast
  with click_edit_found[OF assms(1), of i k] h assms(2)
  show "goal (clients (addClientBtn_click e st) ! k) = trim (f_goal (form st))"
    by (simp add: submitted_goal finalGoal_def)
qed

theorem dropdown_goal_wins_witness:
  "goal (last (clients (addClientBtn_click env_utc (state_of [] None form_jane))))
     = ''Lose weight''"
  using dropdown_goal_wins[of env_utc "state_of [] None form_jane"] valid_jane
  by (simp add: state_of_simps goal_fields_jane)

section \<open>Adding a client\<close>

lemma now_env_utc: "now env_utc = client_id client_bob"
  by (simp add: env_utc_def client_bob_def)

text \<open>
  Claim C2 as stated fails: the new id is the clock reading, and a valid submission in Add
  mode made when the clock reads the id of a record already present appends a record with
  that same id.
\<close>

theorem fresh_id_counterexample:
  "valid_submission env_utc form_jane
   \<and> editingId (state_of [client_bob] None form_jane) = None
   \<and> client_id (last (clients (addClientBtn_click env_utc
          (state_of [client_bob] None form_jane))))
       \<in> client_id ` set (clients (state_of [client_bob] None form_jane))"
  using click_add[of env_utc "state_of [client_bob] None form_jane"] valid_jane
  by (simp add: state_of_simps submitted_id now_env_utc)

text \<open>
  Claim C2, amended: for every valid submission in Add mode the collection grows by exactly
  one record, appended at the end, whose id is the clock reading \<open>Date.now()\<close>; that id
  is unique among the ids already present whenever no record present carries this clock
  reading as its id.
\<close>

theorem add_appends_timestamped_record:
  assumes "valid_submission e (form st)" and "editingId st = None"
  shows "length (clients (addClientBtn_click e st)) = length (clients st) + 1
       \<and> butlast (clients (addClientBtn_click e st)) = clients st
       \<and> client_id (last (clients (addClientBtn_click e st))) = now e
       \<and> (now e \<notin> client_id ` set (clients st) \<longrightarrow>
            client_id (last (clients (addClientBtn_click e st)))
              \<notin> client_id ` set (clients st))"
  using click_add[OF assms] by (simp add: submitted_id)

theorem add_appends_timestamped_record_witness:
  "length (clients (addClientBtn_click env_utc (state_of [] None form_jane))) = 1
   \<and> client_id (last (clients (addClientBtn_click env_utc (state_of [] None form_jane))))
       = 1793620800000"
  using add_appends_timestamped_record[of env_utc "state_of [] None form_jane"] valid_jane
  by (simp add: state_of_simps env_utc_def)


section \<open>Saving an edit\<close>

lemma valid_padded: "valid_submission env_utc form_padded"
  by code_simp

lemma trim_padded: "trim (f_fullName form_padded) = ''Jane Doe''"
  by code_simp

lemma findIndex_bob:
  "findIndex (\<lambda>c. Some (client_id c) = Some 1793620800000) [client_bob] = Some 0"
  by (simp add: client_bob_def)

text \<open>
  Claim C3 as stated fails on the field values: with the name typed as \<open>Jane Doe\<close> with
  blanks around it, a valid submission in Edit mode stores \<open>Jane Doe\<close> without them, not
  the value submitted.
\<close>

theorem edit_stores_trimmed_name_counterexample:
  "valid_submission env_utc form_padded
   \<and> editingId (state_of [client_bob] (Some 1793620800000) form_padded) = Some 1793620800000
   \<and> client_id (clients (state_of [client_bob] (Some 1793620800000) form_padded) ! 0)
       = 1793620800000
   \<and> f_fullName (form (state_of [client_bob] (Some 1793620800000) form_padded))
       = ''  Jane Doe ''
   \<and> fullName (clients (addClientBtn_click env_utc
          (state_of [client_bob] (Some 1793620800000) form_padded)) ! 0) = ''Jane Doe''"
  using click_edit_found[of env_utc "state_of [client_bob] (Some 1793620800000) form_padded"
      1793620800000 0] valid_padded findIndex_bob
  by (simp add: state_of_simps submitted_def trim_padded) (simp add: form_padded_def client_bob_def)

text \<open>
  Claim C3, amended: a valid submission in Edit mode whose \<open>editingId\<close> matches a
  record leaves the size of the collection unchanged; the record edited is the first one
  with that id, at its position \<open>k\<close>; it keeps its id, and every other field holds the
  value the handler reads from the form: name, age, e-mail and phone trimmed of surrounding
  white space, gender and the two dates as entered, and as goal the trimmed dropdown value
  or, when that is empty, the trimmed free text; all other records are unchanged, and the
  controller is back in Add mode.
\<close>

theorem edit_updates_in_place:
  assumes "valid_submission e (form st)" and "editingId st = Some i"
    and "i \<in> client_id ` set (clients st)"
  shows "\<exists>k<length (clients st).
           client_id (clients st ! k) = i \<and> (\<forall>j<k. client_id (clients st ! j) \<noteq> i)
         \<and> length (clients (addClientBtn_click e st)) = length (clients st)
         \<and> client_id (clients (addClientBtn_click e st) ! k) = i
         \<and> fullName (clients (addClientBtn_click e st) ! k) = trim (f_fullName (form st))
         \<and> age (clients (addClientBtn_click e st) ! k) = trim (f_age (form st))
         \<and> gender (clients (addClientBtn_click e st) ! k) = f_gender (form st)
         \<and> email (clients (addClientBtn_click e st) ! k) = trim (f_email (form st))
         \<and> phone (clients (addClientBtn_click e st) ! k) = trim (f_phone (form st))
         \<and> goal (clients (addClientBtn_click e st) ! k) = finalGoal (form st)
         \<and> startDate (clients (addClientBtn_click e st) ! k) = f_startDate (form st)
         \<and> endDate (clients (addClientBtn_click e st) ! k) = f_endDate (form st)
         \<and> (\<forall>j<length (clients st). j \<noteq> k \<longrightarrow>
               clients (addClientBtn_click e st) ! j = clients st ! j)
         \<and> editingId (addClientBtn_click e st) = None"
proof -
  from findIndex_id_Some[OF assms(3)] obtain k
    where k: "findIndex (\<lambda>c. Some (client_id c) = Some i) (clients st) = Some k"
    by blast
  from findIndex_Some[OF k]
  have bound: "k < length (clients st)" and hit: "client_id (clients st ! k) = i"
    and first: "\<forall>j<k. client_id (clients st ! j) \<noteq> i"
    by auto
  note eq = click_edit_found[OF assms(1,2) k]
  have "length (clients (addClientBtn_click e st)) = length (clients st)"
    by (simp add: eq)
  moreover have "clients (addClientBtn_click e st) ! k = submitted (form st) (clients st ! k)"
    using bound by (simp add: eq)
  moreover have "\<forall>j<length (clients st). j \<noteq> k \<longrightarrow>
      clients (addClientBtn_click e st) ! j = clients st ! j"
    by (simp add: eq)
  moreover have "editingId (addClientBtn_click e st) = None"
    by (simp add: eq)
  ultimately show ?thesis
    using bound hit first by (intro exI[of _ k]) (simp add: submitted_def)
qed

lemma trim_jane:
  "trim (f_fullName form_jane) = ''Jane Doe''" "trim (f_email form_jane) = ''jane@x.com''"
  by code_simp+

theorem edit_updates_in_place_witness:
  "length (clients (addClientBtn_click env_utc
       (state_of [client_bob] (Some 1793620800000) form_jane))) = 1
   \<and> client_id (clients (addClientBtn_click env_utc
       (state_of [client_bob] (Some 1793620800000) form_jane)) ! 0) = 1793620800000
   \<and> fullName (clients (addClientBtn_click env_utc
       (state_of [client_bob] (Some 1793620800000) form_jane)) ! 0) = ''Jane Doe''
   \<and> editingId (addClientBtn_click env_utc
       (state_of [client_bob] (Some 1793620800000) form_jane)) = None"
  using edit_updates_in_place[of env_utc
      "state_of [client_bob] (Some 1793620800000) form_jane" 1793620800000] valid_jane
  by (simp add: state_of_simps trim_jane client_bob_def)

section \<open>Rejected submissions\<close>

lemma rule_in_order: "r \<in> set rule_order"
  by (cases r) (simp_all add: rule_order_def)

text \<open>
  A click on a form that fails one of the handler's checks only alerts the message of the
  first check that fails, in the order the handler makes them; the repository, the store and
  the edit-mode state are as they were.
\<close>

lemma rejected_click:
  assumes "check_fails e (form st) r0"
  shows "\<exists>r k. first_failed_check e (form st) = Some r
         \<and> k < length rule_order \<and> rule_order ! k = r \<and> check_fails e (form st) r
         \<and> (\<forall>j<k. \<not> check_fails e (form st) (rule_order ! j))
         \<and> addClientBtn_click e st = st\<lparr>alerts := alerts st @ [message r]\<rparr>
         \<and> clients (addClientBtn_click e st) = clients st
         \<and> storage (addClientBtn_click e st) = storage st
         \<and> editingId (addClientBtn_click e st) = editingId st"
proof -
  from assms rule_in_order[of r0] have "find (check_fails e (form st)) rule_order \<noteq> None"
    by (auto simp: find_None_iff)
  then obtain r where r: "first_failed_check e (form st) = Some r"
    by (auto simp: first_failed_check_def)
  then obtain k where k: "k < length rule_order" "check_fails e (form st) (rule_order ! k)"
      "r = rule_order ! k" "\<forall>j<k. \<not> check_fails e (form st) (rule_order ! j)"
    unfolding first_failed_check_def find_Some_iff by blast
  from click_invalid[OF r]
  have "addClientBtn_click e st = st\<lparr>alerts := alerts st @ [message r]\<rparr>"
    by (simp add: alert_def)
  with r k show ?thesis
    by (intro exI[of _ r] exI[of _ k]) simp
qed

section \<open>Saving an edit of a record that is gone\<close>

text \<open>
  Claim C10: a valid submission in Edit mode whose \<open>editingId\<close> matches no record leaves
  the collection unchanged, still writes the serialized collection to the store, clears the
  form and returns to Add mode, and shows no alert and logs nothing.
\<close>

theorem edit_of_missing_record:
  assumes "valid_submission e (form st)" and "editingId st = Some i"
    and "i \<notin> client_id ` set (clients st)"
  shows "clients (addClientBtn_click e st) = clients st
       \<and> storage (addClientBtn_click e st) = Some (JSON_stringify (clients_value (clients st)))
       \<and> form (addClientBtn_click e st) = clearForm
       \<and> editingId (addClientBtn_click e st) = None
       \<and> alerts (addClientBtn_click e st) = alerts st
       \<and> console (addClientBtn_click e st) = console st"
proof -
  from assms(3) have "findIndex (\<lambda>c. Some (client_id c) = Some i) (clients st) = None"
    by (auto simp: findIndex_None)
  from click_edit_missing[OF assms(1,2) this] show ?thesis
    by (simp add: saveClients_def)
qed

theorem edit_of_missing_record_witness:
  "clients (addClientBtn_click env_utc (state_of [client_bob] (Some 7) form_jane))
     = [client_bob]
   \<and> editingId (addClientBtn_click env_utc (state_of [client_bob] (Some 7) form_jane)) = None
   \<and> alerts (addClientBtn_click env_utc (state_of [client_bob] (Some 7) form_jane)) = []"
  using edit_of_missing_record[of env_utc "state_of [client_bob] (Some 7) form_jane" 7]
    valid_jane
  by (simp add: state_of_simps client_bob_def)

section \<open>Search\<close>

lemma includes_js_sublist: "includes_js s q = sublist q s"
  by (induction s) (auto simp: sublist_Cons_right)

lemma search_filter_eq:
  assumes "toLowerCase q \<noteq> []"
  shows "filter (\<lambda>c. fullName c \<noteq> []
                    \<and> includes_js (toLowerCase (fullName c)) (toLowerCase q)) cs
       = filter (\<lambda>c. contains_ci q (fullName c)) cs"
  using assms
  by (intro filter_cong) (auto simp: includes_js_sublist contains_ci_def toLowerCase_def)

lemma applySearch_table:
  "table (applySearch v st) = filter (\<lambda>c. contains_ci (trim v) (fullName c)) (clients st)"
proof (cases "toLowerCase (trim v) = []")
  case True
  then have "trim v = []" by (simp add: toLowerCase_def)
  then show ?thesis
    by (simp add: applySearch_def Let_def renderClientTable_def contains_ci_def toLowerCase_def)
next
  case False
  then show ?thesis
    by (simp add: applySearch_def Let_def renderClientTable_def search_filter_eq)
qed

lemma applySearch_keeps:
  "clients (applySearch v st) = clients st" "storage (applySearch v st) = storage st"
  "editingId (applySearch v st) = editingId st"
  by (simp_all add: applySearch_def Let_def renderClientTable_def)

lemma search_padded_example:
  "\<not> contains_ci '' jane'' (fullName client_jane)"
  "contains_ci (trim '' jane'') (fullName client_jane)"
  "\<not> contains_ci (trim '' jane'') (fullName client_bob)"
  by code_simp+

text \<open>
  Claim C8 as stated fails for a query with white space around it: the query \<open>jane\<close>
  typed with a blank in front selects \<open>Jane Doe\<close>, whose name does not contain that
  query.
\<close>

theorem search_untrimmed_query_counterexample:
  "\<not> contains_ci '' jane'' (fullName client_jane)
   \<and> table (applySearch '' jane'' (state_of [client_bob, client_jane] None clearForm))
       = [client_jane]"
  by (simp add: applySearch_table state_of_simps search_padded_example)

text \<open>
  Claim C8, amended: for every collection and every query, the rows rendered are exactly the
  records whose \<open>fullName\<close> contains the query, trimmed of surrounding white space, as a
  case-insensitive substring, in their original order; the repository and the store are not
  touched; and a query that is empty after trimming, also after any other search, renders
  the whole collection in its original order.
\<close>

theorem search_selects_matching_names:
  "table (applySearch v st) = filter (\<lambda>c. contains_ci (trim v) (fullName c)) (clients st)
   \<and> clients (applySearch v st) = clients st
   \<and> storage (applySearch v st) = storage st
   \<and> (trim v' = [] \<longrightarrow> table (applySearch v' (applySearch v st)) = clients st)"
  by (simp add: applySearch_table applySearch_keeps contains_ci_def toLowerCase_def)

lemma search_example:
  "trim [] = []"
  "contains_ci (trim ''JANE'') (fullName client_jane)"
  "\<not> contains_ci (trim ''JANE'') (fullName client_bob)"
  by code_simp+

theorem search_selects_matching_names_witness:
  "table (applySearch ''JANE'' (state_of [client_bob, client_jane] None clearForm))
     = [client_jane]
   \<and> table (applySearch [] (applySearch ''JANE''
        (state_of [client_bob, client_jane] None clearForm))) = [client_bob, client_jane]"
  using search_selects_matching_names[of "''JANE''"
      "state_of [client_bob, client_jane] None clearForm" "[]"]
  by (simp add: state_of_simps search_example)

section \<open>Deleting\<close>

lemma find_None_id: "find (\<lambda>c. client_id c = i) cs = None \<longleftrightarrow> i \<notin> client_id ` set cs"
  by (auto simp: find_None_iff)

lemma delete_missing:
  assumes "i \<notin> client_id ` set (clients st)"
  shows "tableBody_click ok (DeleteBtn i) st = st"
  using assms by (simp add: tableBody_click_def find_None_id[symmetric])

lemma delete_declined: "tableBody_click False (DeleteBtn i) st = st"
  by (simp add: tableBody_click_def split: option.splits)

lemma delete_confirmed:
  assumes "i \<in> client_id ` set (clients st)"
  shows "clients (tableBody_click True (DeleteBtn i) st)
           = filter (\<lambda>c. client_id c \<noteq> i) (clients st)"
    and "storage (tableBody_click True (DeleteBtn i) st)
           = saveClients (clients_value (filter (\<lambda>c. client_id c \<noteq> i) (clients st)))"
proof -
  from assms obtain c where "find (\<lambda>c. client_id c = i) (clients st) = Some c"
    by (cases "find (\<lambda>c. client_id c = i) (clients st)") (auto simp: find_None_id)
  then show "clients (tableBody_click True (DeleteBtn i) st)
           = filter (\<lambda>c. client_id c \<noteq> i) (clients st)"
    and "storage (tableBody_click True (DeleteBtn i) st)
           = saveClients (clients_value (filter (\<lambda>c. client_id c \<noteq> i) (clients st)))"
    by (simp_all add: tableBody_click_def Let_def renderClientTable_def)
qed

lemma edit_missing_logged:
  assumes "i \<notin> client_id ` set (clients st)"
  shows "tableBody_click ok (EditBtn i) st
           = st\<lparr>console := console st @ [''No client found for id '' @ number_text i]\<rparr>"
  using assms by (simp add: tableBody_click_def find_None_id[symmetric] console_warn_def)

lemma view_missing_logged:
  assumes "i \<notin> client_id ` set (clients st)"
  shows "tableBody_click ok (ViewBtn i) st
           = st\<lparr>console := console st @ [''No client found for id '' @ number_text i]\<rparr>"
  using assms by (simp add: tableBody_click_def find_None_id[symmetric] console_warn_def)

lemma delete_one_of_distinct:
  assumes "i \<in> client_id ` set cs" and "distinct (map client_id cs)"
  shows "\<exists>xs c ys. cs = xs @ c # ys \<and> client_id c = i
           \<and> filter (\<lambda>c. client_id c \<noteq> i) cs = xs @ ys"
proof -
  from assms(1) obtain c where c: "c \<in> set cs" "client_id c = i" by auto
  then obtain xs ys where cs: "cs = xs @ c # ys" by (auto dest: split_list)
  with assms(2) c have "i \<notin> client_id ` set xs" "i \<notin> client_id ` set ys"
    by simp_all
  then have "filter (\<lambda>c. client_id c \<noteq> i) xs = xs" "filter (\<lambda>c. client_id c \<noteq> i) ys = ys"
    by (auto simp: filter_id_conv)
  then have "filter (\<lambda>c. client_id c \<noteq> i) cs = xs @ ys"
    using c cs by simp
  with cs c show ?thesis by blast
qed

lemma seven_not_bob: "7 \<notin> client_id ` set [client_bob]"
  by (simp add: client_bob_def)

text \<open>
  Claim C9 as stated fails at a delete click whose id matches no record: the delete branch
  returns at its guard \<open>if (!clientToDelete) return;\<close> and writes nothing to the console.
  (The rows are rendered from the collection, so the page's own buttons carry ids of records;
  the guard is what the handler does with any other id.)
\<close>

theorem delete_lookup_failure_not_logged_counterexample:
  "7 \<notin> client_id ` set (clients (state_of [client_bob] None clearForm))
   \<and> console (state_of [client_bob] None clearForm) = []
   \<and> console (tableBody_click True (DeleteBtn 7) (state_of [client_bob] None clearForm)) = []
   \<and> tableBody_click True (DeleteBtn 7) (state_of [client_bob] None clearForm)
       = state_of [client_bob] None clearForm"
  using seven_not_bob
  by (simp add: delete_missing state_of_simps)

text \<open>
  Claim C9, amended: for every delete action, if the id matches no record the action changes
  nothing at all, so it is a no-op on the repository and the store and nothing is logged; if
  the id matches and the confirmation is declined, the repository and the store are
  unchanged; if the confirmation is accepted, the records with that id are removed and all
  other records are preserved in order, and the store is rewritten with the remaining
  records; with pairwise distinct ids exactly one record, the one with that id, is removed.
\<close>

theorem delete_action:
  "(i \<notin> client_id ` set (clients st) \<longrightarrow> tableBody_click ok (DeleteBtn i) st = st)
   \<and> (i \<in> client_id ` set (clients st) \<longrightarrow> tableBody_click False (DeleteBtn i) st = st)
   \<and> (i \<in> client_id ` set (clients st) \<longrightarrow>
        clients (tableBody_click True (DeleteBtn i) st)
          = filter (\<lambda>c. client_id c \<noteq> i) (clients st)
        \<and> storage (tableBody_click True (DeleteBtn i) st)
          = saveClients (clients_value (filter (\<lambda>c. client_id c \<noteq> i) (clients st))))
   \<and> (i \<in> client_id ` set (clients st) \<and> distinct (map client_id (clients st)) \<longrightarrow>
        (\<exists>xs c ys. clients st = xs @ c # ys \<and> client_id c = i
           \<and> clients (tableBody_click True (DeleteBtn i) st) = xs @ ys))"
proof (intro conjI impI)
  assume "i \<notin> client_id ` set (clients st)"
  then show "tableBody_click ok (DeleteBtn i) st = st" by (rule delete_missing)
next
  show "tableBody_click False (DeleteBtn i) st = st" by (rule delete_declined)
next
  assume "i \<in> client_id ` set (clients st)"
  then show "clients (tableBody_click True (DeleteBtn i) st)
          = filter (\<lambda>c. client_id c \<noteq> i) (clients st)"
    by (rule delete_confirmed)
next
  assume "i \<in> client_id ` set (clients st)"
  then show "storage (tableBody_click True (DeleteBtn i) st)
          = saveClients (clients_value (filter (\<lambda>c. client_id c \<noteq> i) (clients st)))"
    by (rule delete_confirmed)
next
  assume a: "i \<in> client_id ` set (clients st) \<and> distinct (map client_id (clients st))"
  then have "clients (tableBody_click True (DeleteBtn i) st)
          = filter (\<lambda>c. client_id c \<noteq> i) (clients st)"
    by (intro delete_confirmed) simp
  with delete_one_of_distinct[of i "clients st"] a show
    "\<exists>xs c ys. clients st = xs @ c # ys \<and> client_id c = i
           \<and> clients (tableBody_click True (DeleteBtn i) st) = xs @ ys"
    by simp
qed

lemma ids_bob_jane:
  "client_id client_bob = 1793620800000" "client_id client_jane = 1793620800123"
  by (simp_all add: client_bob_def client_jane_def)

theorem delete_action_witness:
  "7 \<notin> client_id ` set [client_bob, client_jane]
   \<and> 1793620800000 \<in> client_id ` set [client_bob, client_jane]
   \<and> distinct (map client_id [client_bob, client_jane])
   \<and> tableBody_click True (DeleteBtn 7) (state_of [client_bob, client_jane] None clearForm)
       = state_of [client_bob, client_jane] None clearForm
   \<and> tableBody_click False (DeleteBtn 1793620800000)
         (state_of [client_bob, client_jane] None clearForm)
       = state_of [client_bob, client_jane] None clearForm
   \<and> clients (tableBody_click True (DeleteBtn 1793620800000)
         (state_of [client_bob, client_jane] None clearForm))
       = [client_jane]"
  using delete_action[of 7 "state_of [client_bob, client_jane] None clearForm" True]
    delete_action[of 1793620800000 "state_of [client_bob, client_jane] None clearForm" True]
  by (simp add: state_of_simps ids_bob_jane)

section \<open>Exercise selection\<close>

declare select_loop.simps [simp del]

lemma random_index:
  assumes "0 \<le> r" and "r < 1" and "0 < n"
  shows "0 \<le> \<lfloor>r * real n\<rfloor>" and "nat \<lfloor>r * real n\<rfloor> < n"
proof -
  from assms show nonneg: "0 \<le> \<lfloor>r * real n\<rfloor>" by simp
  from assms have "r * real n < real n" by simp
  then have "\<lfloor>r * real n\<rfloor> < int n" by (simp add: floor_less_iff)
  with nonneg show "nat \<lfloor>r * real n\<rfloor> < n" by linarith
qed

lemma mset_splice1:
  assumes "i < length xs"
  shows "add_mset (xs ! i) (mset (splice1 i xs)) = mset xs"
proof -
  from assms have "xs = take i xs @ xs ! i # drop (Suc i) xs"
    by (rule id_take_nth_drop)
  then have "mset xs = mset (take i xs @ xs ! i # drop (Suc i) xs)"
    by simp
  then show ?thesis by (simp add: splice1_def)
qed

lemma distinct_of_submultiset:
  assumes "mset xs \<subseteq># mset ys" and "distinct ys"
  shows "distinct xs"
  unfolding distinct_count_atmost_1
proof (intro allI)
  fix a
  from assms(1) have le: "count (mset xs) a \<le> count (mset ys) a"
    by (rule mset_subset_eq_count)
  from assms(2) have "count (mset ys) a \<le> 1"
    by (simp add: distinct_count_atmost_1)
  with le have le1: "count (mset xs) a \<le> 1" by simp
  show "count (mset xs) a = (if a \<in> set xs then 1 else 0)"
  proof (cases "a \<in> set xs")
    case True
    then have "count (mset xs) a \<noteq> 0" by simp
    with le1 have "count (mset xs) a = 1" by linarith
    with True show ?thesis by (simp only: if_True)
  next
    case False
    then show ?thesis by simp
  qed
qed

lemma select_loop_result:
  assumes "\<forall>k. 0 \<le> rnd k \<and> rnd k < 1"
  shows "\<exists>out. select_loop rnd k sel av = Inr out
           \<and> mset out \<subseteq># mset sel + mset av
           \<and> length out \<le> max 5 (length sel)"
  using assms
proof (induction rnd k sel av rule: select_loop.induct)
  case (1 rnd k sel av)
  show ?case
  proof (cases "length sel < 5 \<and> av \<noteq> []")
    case False
    then show ?thesis by (subst select_loop.simps) simp
  next
    case True
    define i where "i = nat \<lfloor>rnd k * real (length av)\<rfloor>"
    define sel' where "sel' = (if hasEnglishName (av ! i) then sel @ [av ! i] else sel)"
    from True "1.prems" have nonneg: "0 \<le> \<lfloor>rnd k * real (length av)\<rfloor>" and i: "i < length av"
      unfolding i_def by (simp_all add: random_index)
    have step: "select_loop rnd k sel av = select_loop rnd (Suc k) sel' (splice1 i av)"
      using True nonneg i
      by (subst select_loop.simps) (simp add: i_def sel'_def)
    from "1.IH"[OF True] nonneg i "1.prems"
    obtain out where out: "select_loop rnd (Suc k) sel' (splice1 i av) = Inr out"
        "mset out \<subseteq># mset sel' + mset (splice1 i av)" "length out \<le> max 5 (length sel')"
      unfolding i_def sel'_def by auto
    have "mset sel' + mset (splice1 i av) \<subseteq># mset sel + (mset (splice1 i av) + {#av ! i#})"
      by (simp add: sel'_def)
    also have "\<dots> = mset sel + mset av"
      using i by (simp add: mset_splice1)
    finally have "mset sel' + mset (splice1 i av) \<subseteq># mset sel + mset av" .
    with out(2) have sub: "mset out \<subseteq># mset sel + mset av"
      by (rule subset_mset.order_trans)
    from True have "length sel' \<le> 5" by (simp add: sel'_def)
    with out(3) have "length out \<le> max 5 (length sel)" by simp
    with out(1) sub step show ?thesis by simp
  qed
qed

lemma nth_splice1:
  assumes "j < length xs" and "i < length xs - 1"
  shows "splice1 j xs ! i = xs ! (if i < j then i else Suc i)"
  using assms by (auto simp: splice1_def nth_append min_def)

lemma submultiset_positions:
  assumes "mset ys \<subseteq># mset xs"
  shows "\<exists>ps. distinct ps \<and> (\<forall>p\<in>set ps. p < length xs) \<and> ys = map ((!) xs) ps"
  using assms
proof (induction ys arbitrary: xs)
  case Nil
  show ?case by (rule exI[of _ "[]"]) simp
next
  case (Cons y ys)
  from Cons.prems have "y \<in># mset xs"
    by (simp add: insert_subset_eq_iff)
  then obtain j where j: "j < length xs" "xs ! j = y"
    by (auto simp: in_set_conv_nth)
  from mset_splice1[OF j(1)] j(2) have split: "mset xs = add_mset y (mset (splice1 j xs))"
    by simp
  with Cons.prems have "mset ys \<subseteq># mset (splice1 j xs)"
    by simp
  from Cons.IH[OF this] obtain ps where ps: "distinct ps"
      "\<forall>p\<in>set ps. p < length (splice1 j xs)" "ys = map ((!) (splice1 j xs)) ps"
    by blast
  have len: "length (splice1 j xs) = length xs - 1"
    using j(1) by (simp add: splice1_def)
  define shift where "shift p = (if p < j then p else Suc p)" for p
  have not_j: "shift p \<noteq> j" for p
    by (simp add: shift_def)
  have "inj shift"
  proof (rule injI)
    fix p q
    assume "shift p = shift q"
    then show "p = q"
      by (cases "p < j"; cases "q < j") (simp_all add: shift_def)
  qed
  then have "inj_on shift (set ps)"
    by (rule inj_on_subset) simp
  with ps(1) have "distinct (map shift ps)"
    by (simp add: distinct_map)
  with not_j have "distinct (j # map shift ps)"
    by auto
  moreover have "p < length xs" if "p \<in> set (j # map shift ps)" for p
  proof (cases "p = j")
    case True
    with j(1) show ?thesis by simp
  next
    case False
    with that obtain q where q: "q \<in> set ps" "p = shift q" by auto
    with ps(2) len have "q < length xs - 1" by simp
    then have "q < length xs" "Suc q < length xs" by simp_all
    with q(2) show ?thesis by (simp add: shift_def)
  qed
  moreover have "map ((!) (splice1 j xs)) ps = map (\<lambda>p. xs ! shift p) ps"
  proof (rule map_cong[OF refl])
    fix p
    assume "p \<in> set ps"
    with ps(2) len have "p < length xs - 1" by simp
    from nth_splice1[OF j(1) this] show "splice1 j xs ! p = xs ! shift p"
      by (simp add: shift_def)
  qed
  with ps(3) j(2) have "y # ys = map ((!) xs) (j # map shift ps)"
    by (simp add: o_def)
  ultimately show ?case
    by (intro exI[of _ "j # map shift ps"]) blast
qed

text \<open>
  Claim C6: for every fetched result set and every sequence of values of \<open>Math.random()\<close>,
  each in the interval from 0 (inclusive) to 1 (exclusive), the selection returns (the loop
  is a total function and raises no error) at most 5 items, and these are the items at
  pairwise distinct positions of the filtered list: sampling without replacement, no item
  of the filtered list is selected twice. So no item is selected more often than it occurs
  there, and the selected items are pairwise distinct whenever the filtered items are.
\<close>

theorem selection_without_replacement:
  assumes "\<forall>k. 0 \<le> rnd k \<and> rnd k < 1"
  shows "\<exists>selected ps. selectExercises rnd results = Inr selected
           \<and> length selected \<le> 5
           \<and> distinct ps \<and> (\<forall>p\<in>set ps. p < length (exercisesWithEnglish results))
           \<and> selected = map ((!) (exercisesWithEnglish results)) ps
           \<and> mset selected \<subseteq># mset (exercisesWithEnglish results)
           \<and> (distinct (exercisesWithEnglish results) \<longrightarrow> distinct selected)"
proof -
  from select_loop_result[OF assms, of 0 "[]" "exercisesWithEnglish results"]
  obtain out where out: "selectExercises rnd results = Inr out"
      "mset out \<subseteq># mset (exercisesWithEnglish results)" "length out \<le> 5"
    by (auto simp: selectExercises_def)
  from submultiset_positions[OF out(2)] obtain ps
    where ps: "distinct ps" "\<forall>p\<in>set ps. p < length (exercisesWithEnglish results)"
      "out = map ((!) (exercisesWithEnglish results)) ps"
    by blast
  have "distinct (exercisesWithEnglish results) \<longrightarrow> distinct out"
    using out(2) by (auto intro: distinct_of_submultiset)
  with out ps show ?thesis by blast
qed

lemma rnd_half_range: "\<forall>k. 0 \<le> rnd_half k \<and> rnd_half k < 1"
  by (simp add: rnd_half_def)

lemma selection_example: "selectExercises rnd_half results_example = Inr [exercise_plank, exercise_squat]"
  by code_simp

theorem selection_without_replacement_witness:
  "(\<forall>k. 0 \<le> rnd_half k \<and> rnd_half k < 1)
   \<and> selectExercises rnd_half results_example = Inr [exercise_plank, exercise_squat]
   \<and> length [exercise_plank, exercise_squat] \<le> 5"
  using selection_without_replacement[OF rnd_half_range, of results_example]
    rnd_half_range selection_example
  by simp


section \<open>The start-date check\<close>

text \<open>
  In a time zone at or east of UTC the check is what its documentation says: a calendar date
  is accepted exactly when it is not before the local date of the clock.
\<close>

lemma setHours0_midnight_utc:
  assumes "0 \<le> tzOffset e" and "tzOffset e < 1440"
  shows "setHours0 e (Some (d * msPerDay)) = Some (d * msPerDay - tzOffset e * 60000)"
proof -
  from assms have "(d * msPerDay + tzOffset e * 60000) div msPerDay = d"
    by (simp add: msPerDay_def div_pos_pos_trivial)
  then show ?thesis by (simp add: setHours0_def)
qed

lemma isDateNotInPast_east_of_utc:
  assumes "0 \<le> tzOffset e" and "tzOffset e < 1440" and "parse_ymd s = Some (y, m, d)"
  shows "isDateNotInPast e s
     \<longleftrightarrow> (now e + tzOffset e * 60000) div msPerDay \<le> days_from_civil y m d"
proof -
  from assms(3) have "s \<noteq> []"
    by (auto simp: parse_ymd_def)
  moreover have "new_Date s = Some (days_from_civil y m d * msPerDay)"
    using assms(3) by (simp add: new_Date_def)
  moreover have "(now e + tzOffset e * 60000) div msPerDay * msPerDay
      \<le> days_from_civil y m d * msPerDay
     \<longleftrightarrow> (now e + tzOffset e * 60000) div msPerDay \<le> days_from_civil y m d"
    by (simp add: msPerDay_def)
  ultimately show ?thesis
    using setHours0_midnight_utc[OF assms(1,2)]
    by (simp add: isDateNotInPast_def Let_def) (simp add: setHours0_def)
qed

text \<open>
  West of UTC the check asks for more: a calendar date is accepted exactly when it is
  strictly after the local date of the clock, so that today's date is rejected.
\<close>

lemma setHours0_midnight_west:
  assumes "- 1440 < tzOffset e" and "tzOffset e < 0"
  shows "setHours0 e (Some (d * msPerDay)) = Some ((d - 1) * msPerDay - tzOffset e * 60000)"
proof -
  define x where "x = tzOffset e * 60000 + 86400000"
  from assms have x: "0 \<le> x" "x < 86400000" by (simp_all add: x_def)
  have "d * 86400000 + tzOffset e * 60000 = (d - 1) * 86400000 + x"
    by (simp add: x_def algebra_simps)
  moreover from x have "((d - 1) * 86400000 + x) div 86400000 = d - 1"
    by (simp add: div_pos_pos_trivial)
  ultimately have "(d * msPerDay + tzOffset e * 60000) div msPerDay = d - 1"
    by (simp add: msPerDay_def)
  then show ?thesis by (simp add: setHours0_def)
qed

lemma isDateNotInPast_west_of_utc:
  assumes "- 1440 < tzOffset e" and "tzOffset e < 0" and "parse_ymd s = Some (y, m, d)"
  shows "isDateNotInPast e s
     \<longleftrightarrow> (now e + tzOffset e * 60000) div msPerDay < days_from_civil y m d"
proof -
  from assms(3) have "s \<noteq> []"
    by (auto simp: parse_ymd_def)
  moreover have "new_Date s = Some (days_from_civil y m d * msPerDay)"
    using assms(3) by (simp add: new_Date_def)
  moreover have "(now e + tzOffset e * 60000) div msPerDay * msPerDay
      \<le> (days_from_civil y m d - 1) * msPerDay
     \<longleftrightarrow> (now e + tzOffset e * 60000) div msPerDay < days_from_civil y m d"
  proof -
    have "a * msPerDay \<le> (b - 1) * msPerDay \<longleftrightarrow> a < b" for a b :: int
      unfolding msPerDay_def by (simp only: mult_le_cancel_right) auto
    then show ?thesis .
  qed
  ultimately show ?thesis
    using setHours0_midnight_west[OF assms(1,2)]
    by (simp add: isDateNotInPast_def Let_def) (simp add: setHours0_def)
qed

lemma today_in_new_york:
  "(now env_new_york + tzOffset env_new_york * 60000) div msPerDay = days_from_civil 2026 11 2"
  by code_simp

lemma start_today_new_york: "isDateNotInPast env_new_york ''2026-11-02'' = False"
  by code_simp

lemma start_today_utc: "isDateNotInPast env_utc ''2026-11-02'' = True"
  by code_simp

text \<open>
  Claim C5 at a browser west of UTC: at 12:00 local time on 2026-11-02 in UTC-5 the start
  date \<open>2026-11-02\<close>, today's date there, is rejected; the date string is read as
  midnight UTC, which is still the previous day in local time, and is then reset to the
  local midnight of that previous day. The same string is accepted at the same local time
  on UTC.
\<close>

theorem start_date_today_rejected_west_of_utc:
  "parse_ymd ''2026-11-02'' = Some (2026, 11, 2)
   \<and> (now env_new_york + tzOffset env_new_york * 60000) div msPerDay
       = days_from_civil 2026 11 2
   \<and> isDateNotInPast env_new_york ''2026-11-02'' = False
   \<and> isDateNotInPast env_utc ''2026-11-02'' = True"
  by (intro conjI today_in_new_york start_today_new_york start_today_utc) code_simp

section \<open>Rejected submissions and the rules as stated\<close>

text \<open>
  In a time zone at or east of UTC the handler's checks are the rules as stated, so the
  message of a rejected submission is that of the first violated rule.
\<close>

lemma isDateNotInPast_no_date:
  assumes "parse_ymd s = None"
  shows "\<not> isDateNotInPast e s"
  using assms by (simp add: isDateNotInPast_def new_Date_def setHours0_def Let_def)

lemma spec_violated_east_of_utc:
  assumes "0 \<le> tzOffset e" and "tzOffset e < 1440"
  shows "spec_violated e f r = check_fails e f r"
proof (cases "r = StartDateCheck")
  case False
  then show ?thesis by (simp add: spec_violated_def)
next
  case True
  show ?thesis
  proof (cases "parse_ymd (f_startDate f)")
    case None
    with True isDateNotInPast_no_date[OF None, of e] show ?thesis
      by (simp add: spec_violated_def start_before_today_def)
  next
    case (Some t)
    obtain y m d where t: "t = (y, m, d)" by (cases t)
    from isDateNotInPast_east_of_utc[OF assms Some[unfolded t]] True Some t
    show ?thesis
      by (auto simp: spec_violated_def start_before_today_def local_day_def)
  qed
qed

lemma spec_first_violation_east_of_utc:
  assumes "0 \<le> tzOffset e" and "tzOffset e < 1440"
  shows "spec_first_violation e f = first_failed_check e f"
proof -
  from spec_violated_east_of_utc[OF assms]
  have "spec_violated e f = check_fails e f" by (intro ext)
  then show ?thesis
    by (simp add: spec_first_violation_def first_failed_check_def)
qed

lemma rejected_east_of_utc:
  assumes "0 \<le> tzOffset e" and "tzOffset e < 1440" and "spec_violated e (form st) r0"
  shows "\<exists>r. spec_first_violation e (form st) = Some r
         \<and> addClientBtn_click e st = st\<lparr>alerts := alerts st @ [message r]\<rparr>"
  using rejected_click[of e st r0] assms
  by (auto simp: spec_violated_east_of_utc spec_first_violation_east_of_utc)

text \<open>
  West of UTC the start-date check fails for today's date, and the handler makes it before
  the end-date check.
\<close>

lemma same_day_new_york:
  "spec_first_violation env_new_york form_same_day = Some EndDateCheck"
  "\<not> spec_violated env_new_york form_same_day StartDateCheck"
  "first_failed_check env_new_york form_same_day = Some StartDateCheck"
  "f_startDate form_same_day = ''2026-11-02''"
  "f_endDate form_same_day = ''2026-11-02''"
  by code_simp+

lemma same_day_utc: "first_failed_check env_utc form_same_day = Some EndDateCheck"
  by code_simp

text \<open>
  Claim C4 at a browser west of UTC: at 12:00 local time on 2026-11-02 in UTC-5, a form
  that is complete and well-formed, with start date and end date both \<open>2026-11-02\<close>,
  violates the end-date rule and no rule before it, the start date being today's date. The
  click leaves the repository as it was, as the claim says, but the rule it reports is the
  start-date rule, not the first violated one; the same form at the same local time on UTC
  is rejected with the end-date rule.
\<close>

theorem same_day_submission_reports_start_date_rule_west_of_utc:
  "f_startDate form_same_day = ''2026-11-02'' \<and> f_endDate form_same_day = ''2026-11-02''
   \<and> local_day env_new_york = days_from_civil 2026 11 2
   \<and> \<not> spec_violated env_new_york form_same_day StartDateCheck
   \<and> spec_first_violation env_new_york form_same_day = Some EndDateCheck
   \<and> alerts (addClientBtn_click env_new_york (state_of [client_bob] None form_same_day))
       = [message StartDateCheck]
   \<and> clients (addClientBtn_click env_new_york (state_of [client_bob] None form_same_day))
       = [client_bob]
   \<and> alerts (addClientBtn_click env_utc (state_of [client_bob] None form_same_day))
       = [message EndDateCheck]"
proof -
  have "addClientBtn_click env_new_york (state_of [client_bob] None form_same_day)
      = alert (message StartDateCheck) (state_of [client_bob] None form_same_day)"
    by (rule click_invalid) (simp add: state_of_simps same_day_new_york)
  moreover
  have "addClientBtn_click env_utc (state_of [client_bob] None form_same_day)
      = alert (message EndDateCheck) (state_of [client_bob] None form_same_day)"
    by (rule click_invalid) (simp add: state_of_simps same_day_utc)
  moreover have "local_day env_new_york = days_from_civil 2026 11 2"
    by code_simp
  ultimately show ?thesis
    using same_day_new_york
    by (simp add: alert_def state_of_simps del: message.simps)
qed

section \<open>Persistence: printing and parsing\<close>

lemma char_eq_iff_nat: "c = d \<longleftrightarrow> (of_char c :: nat) = of_char d"
  by (simp add: of_char_eq_iff)

lemma char_of_codes:
  "char_of (34::nat) = CHR 0x22" "char_of (92::nat) = CHR 0x5C" "char_of (8::nat) = CHR 0x08"
  "char_of (12::nat) = CHR 0x0C" "char_of (10::nat) = CHR 0x0A" "char_of (13::nat) = CHR 0x0D"
  "char_of (9::nat) = CHR 0x09"
  by (simp_all add: char_eq_iff_nat)

lemma hex_val_hex_digit:
  assumes "n < 16"
  shows "hex_val (hex_digit n) = Some n"
  using assms by (auto simp: hex_val_def hex_digit_def Let_def)

lemma parse_chars_quote_char:
  "parse_chars (quote_char c @ rest) = cons_result c (parse_chars rest)"
proof -
  define n where "n = (of_char c :: nat)"
  have c: "c = char_of n" by (simp add: n_def)
  have n: "n < 256" by (simp add: n_def)
  consider (quote) "n = 34" | (backslash) "n = 92" | (b) "n = 8" | (f) "n = 12"
    | (n) "n = 10" | (r) "n = 13" | (t) "n = 9"
    | (control) "n < 32" "n \<notin> {8, 9, 10, 12, 13}"
    | (plain) "32 \<le> n" "n \<noteq> 34" "n \<noteq> 92"
    by fastforce
  then show ?thesis
  proof cases
    case quote
    then show ?thesis
      by (simp add: quote_char_def c unescape_def char_eq_iff_nat char_of_codes)
  next
    case backslash
    then show ?thesis
      by (simp add: quote_char_def c unescape_def char_eq_iff_nat char_of_codes)
  next
    case b
    then show ?thesis
      by (simp add: quote_char_def c unescape_def char_eq_iff_nat char_of_codes)
  next
    case f
    then show ?thesis
      by (simp add: quote_char_def c unescape_def char_eq_iff_nat char_of_codes)
  next
    case n
    then show ?thesis
      by (simp add: quote_char_def c unescape_def char_eq_iff_nat char_of_codes)
  next
    case r
    then show ?thesis
      by (simp add: quote_char_def c unescape_def char_eq_iff_nat char_of_codes)
  next
    case t
    then show ?thesis
      by (simp add: quote_char_def c unescape_def char_eq_iff_nat char_of_codes)
  next
    case control
    then have "n div 16 < 16" "n mod 16 < 16" by simp_all
    then have hex: "hex_val (hex_digit (n div 16)) = Some (n div 16)"
        "hex_val (hex_digit (n mod 16)) = Some (n mod 16)"
      by (simp_all add: hex_val_hex_digit)
    have zero: "hex_val CHR ''0'' = Some 0" by (simp add: hex_val_def)
    from control show ?thesis
      by (simp add: quote_char_def c Let_def hex zero char_eq_iff_nat)
  next
    case plain
    with n show ?thesis
      by (simp add: quote_char_def c Let_def char_eq_iff_nat)
  qed
qed

lemma parse_chars_quoted:
  "parse_chars (concat (map quote_char s) @ CHR 0x22 # rest) = Some (s, rest)"
  by (induction s) (simp_all add: parse_chars_quote_char cons_result_def)

declare nat_digits.simps [simp del]

lemma is_digit_char_of:
  assumes "k < 10"
  shows "is_digit (char_of (48 + k))" and "digit_val (char_of (48 + k)) = k"
    and "char_of (48 + k) = CHR ''0'' \<longleftrightarrow> k = 0"
  using assms by (simp_all add: is_digit_def digit_val_def char_eq_iff_nat)

lemma nat_digits_digits: "list_all is_digit (nat_digits n)"
proof (induction n rule: nat_digits.induct)
  case (1 n)
  then show ?case
    by (subst nat_digits.simps) (simp add: is_digit_char_of)
qed

lemma nat_digits_nonempty: "nat_digits n \<noteq> []"
  by (subst nat_digits.simps) simp

lemma nat_digits_hd: "hd (nat_digits n) = CHR ''0'' \<longleftrightarrow> n = 0"
proof (induction n rule: nat_digits.induct)
  case (1 n)
  show ?case
  proof (cases "n < 10")
    case True
    then show ?thesis
      by (subst nat_digits.simps) (simp add: is_digit_char_of)
  next
    case False
    then have "n div 10 \<noteq> 0" by simp
    with 1[OF False] False show ?thesis
      by (subst nat_digits.simps) (simp add: nat_digits_nonempty)
  qed
qed

lemma digits_val_snoc: "digits_val (ds @ [c]) = 10 * digits_val ds + digit_val c"
  by (simp add: digits_val_def)

lemma digits_val_nat_digits: "digits_val (nat_digits n) = n"
proof (induction n rule: nat_digits.induct)
  case (1 n)
  show ?case
  proof (cases "n < 10")
    case True
    then show ?thesis
      by (subst nat_digits.simps) (simp add: digits_val_def is_digit_char_of)
  next
    case False
    with 1[OF False] show ?thesis
      by (subst nat_digits.simps) (simp add: digits_val_snoc is_digit_char_of)
  qed
qed

lemma takeWhile_digits:
  assumes "list_all is_digit ds" and "rest = [] \<or> \<not> is_digit (hd rest)"
  shows "takeWhile is_digit (ds @ rest) = ds"
  using assms by (induction ds) (auto simp: takeWhile_eq_Nil_iff neq_Nil_conv)

lemma terminated_hd:
  assumes "terminated rest"
  shows "rest = [] \<or> (\<not> is_digit (hd rest) \<and> hd rest \<noteq> CHR ''.'' \<and> hd rest \<noteq> CHR ''e''
           \<and> hd rest \<noteq> CHR ''E'')"
  using assms by (auto simp: terminated_def is_digit_def)

lemma parse_frac_terminated:
  assumes "terminated rest"
  shows "parse_frac rest = Some ([], rest)"
  using terminated_hd[OF assms] by (cases rest) auto

lemma parse_exp_terminated:
  assumes "terminated rest"
  shows "parse_exp rest = Some ([], rest)"
  using terminated_hd[OF assms] by (cases rest) auto

lemma parse_int_part_digits:
  assumes "terminated rest"
  shows "parse_int_part (nat_digits n @ rest) = Some (nat_digits n, rest)"
proof -
  define ds where "ds = nat_digits n"
  have ne: "ds \<noteq> []" and dig: "list_all is_digit ds"
    by (simp_all add: ds_def nat_digits_nonempty nat_digits_digits)
  from terminated_hd[OF assms] have tw: "takeWhile is_digit (ds @ rest) = ds"
    using dig by (intro takeWhile_digits) auto
  then have dw: "dropWhile is_digit (ds @ rest) = rest"
    by (metis append_eq_conv_conj takeWhile_dropWhile_id)
  from ne obtain c cs where ds: "ds = c # cs" by (cases ds) auto
  show ?thesis
  proof (cases "n = 0")
    case True
    have "char_of (48::nat) = CHR ''0''" by (simp add: char_eq_iff_nat)
    with True show ?thesis by (simp add: nat_digits.simps)
  next
    case False
    then have "hd ds \<noteq> CHR ''0''" by (simp add: ds_def nat_digits_hd)
    with ds have "parse_int_part (ds @ rest) = parse_digits (ds @ rest)"
      by simp
    also have "\<dots> = Some (ds, rest)"
      using tw dw ne by (simp add: parse_digits_def)
    finally show ?thesis by (simp add: ds_def)
  qed
qed

lemma parse_minus_digits: "parse_minus (nat_digits n @ rest) = ([], nat_digits n @ rest)"
proof -
  from nat_digits_nonempty[of n] nat_digits_digits[of n]
  obtain c cs where "nat_digits n = c # cs" "is_digit c"
    by (cases "nat_digits n") auto
  then show ?thesis by (auto simp: is_digit_def)
qed

lemma parse_number_text:
  assumes "terminated rest"
  shows "parse_number (number_text i @ rest) = Some (JNum i, rest)"
proof (cases "i < 0")
  case True
  then show ?thesis
    by (simp add: number_text_def parse_number_def parse_int_part_digits[OF assms]
        parse_frac_terminated[OF assms] parse_exp_terminated[OF assms] digits_val_nat_digits)
next
  case False
  then show ?thesis
    by (simp add: number_text_def parse_number_def parse_minus_digits
        parse_int_part_digits[OF assms] parse_frac_terminated[OF assms]
        parse_exp_terminated[OF assms] digits_val_nat_digits)
qed

lemma obj_put_fresh:
  assumes "k \<notin> fst ` set obj"
  shows "obj_put k v obj = obj @ [(k, v)]"
  using assms by (induction obj) auto

lemma make_object_distinct_aux:
  assumes "distinct (map fst (acc @ kvs))"
  shows "foldl (\<lambda>obj (k, v). obj_put k v obj) acc kvs = acc @ kvs"
  using assms
proof (induction kvs arbitrary: acc)
  case Nil
  then show ?case by simp
next
  case (Cons kv kvs)
  obtain k v where kv: "kv = (k, v)" by (cases kv)
  from Cons.prems kv have fresh: "k \<notin> fst ` set acc" by auto
  from Cons.prems kv have "distinct (map fst ((acc @ [(k, v)]) @ kvs))" by auto
  from Cons.IH[OF this] show ?case
    by (simp add: kv obj_put_fresh[OF fresh])
qed

lemma make_object_distinct:
  assumes "distinct (map fst kvs)"
  shows "make_object kvs = kvs"
  using make_object_distinct_aux[of "[]" kvs] assms by (simp add: make_object_def)

lemma skip_ws_start:
  assumes "\<not> json_ws c"
  shows "skip_ws (c # s) = c # s"
  using assms by (simp add: skip_ws_def)

lemma terminated_simps:
  "terminated []" "terminated (CHR '','' # s)" "terminated (CHR '']'' # s)"
  "terminated (CHR ''}'' # s)"
  by (simp_all add: terminated_def)

lemma number_text_start:
  "\<exists>c cs. number_text i = c # cs \<and> (is_digit c \<or> c = CHR ''-'')"
proof (cases "i < 0")
  case True
  then show ?thesis by (simp add: number_text_def)
next
  case False
  from nat_digits_nonempty[of "nat i"] nat_digits_digits[of "nat i"]
  obtain c cs where "nat_digits (nat i) = c # cs" "is_digit c"
    by (cases "nat_digits (nat i)") auto
  with False show ?thesis by (simp add: number_text_def)
qed

lemma stringify_start:
  assumes "wf_json v"
  shows "\<exists>c cs. JSON_stringify v = c # cs \<and> \<not> json_ws c \<and> c \<noteq> CHR '']'' \<and> c \<noteq> CHR ''}''"
proof (cases v)
  case (JNum i)
  from number_text_start[of i] obtain c cs
    where "number_text i = c # cs" "is_digit c \<or> c = CHR ''-''" by blast
  with JNum show ?thesis
    by (auto simp: is_digit_def json_ws_def)
qed (use assms in \<open>auto simp: json_ws_def quote_def\<close>)


lemma parse_elems_join:
  assumes elem: "\<And>v n rest. v \<in> set vs \<Longrightarrow> terminated rest \<Longrightarrow> length (JSON_stringify v) < n
            \<Longrightarrow> parse_value n (JSON_stringify v @ rest) = Some (v, rest)"
    and "vs \<noteq> []"
    and "length (join_comma (map JSON_stringify vs)) + 1 < n"
  shows "parse_elems n (join_comma (map JSON_stringify vs) @ CHR '']'' # rest) = Some (vs, rest)"
  using assms
proof (induction vs arbitrary: n)
  case Nil
  then show ?case by simp
next
  case (Cons v vs)
  from Cons.prems(3) obtain m where n: "n = Suc m" by (cases n) auto
  have json_ws: "\<not> json_ws CHR '']''" "\<not> json_ws CHR '',''"
    by (simp_all add: json_ws_def)
  show ?case
  proof (cases vs)
    case Nil
    with Cons.prems(3) n have "length (JSON_stringify v) < m" by simp
    then have "parse_value m (JSON_stringify v @ CHR '']'' # rest) = Some (v, CHR '']'' # rest)"
      by (intro Cons.prems(1)) (simp_all add: terminated_simps)
    with Nil n show ?thesis
      by (simp add: skip_ws_start json_ws)
  next
    case (Cons w ws)
    let ?tail = "join_comma (map JSON_stringify vs) @ CHR '']'' # rest"
    from Cons Cons.prems(3) n
    have len: "length (JSON_stringify v) < m" "length (join_comma (map JSON_stringify vs)) + 1 < m"
      by simp_all
    from len(1) have "parse_value m (JSON_stringify v @ CHR '','' # ?tail)
        = Some (v, CHR '','' # ?tail)"
      by (intro Cons.prems(1)) (simp_all add: terminated_simps)
    moreover have "parse_elems m ?tail = Some (vs, rest)"
      using Cons len(2) Cons.prems(1) by (intro Cons.IH) simp_all
    ultimately show ?thesis
      using Cons n by (simp add: skip_ws_start json_ws cons_result_def)
  qed
qed


lemma parse_member:
  assumes "parse_value m (JSON_stringify v @ tail) = Some (v, tail)"
  shows "parse_members (Suc m) (quote k @ CHR '':'' # JSON_stringify v @ tail)
       = (case skip_ws tail of
            [] \<Rightarrow> None
          | c # r \<Rightarrow> if c = CHR ''}'' then Some ([(k, v)], r)
                     else if c = CHR '','' then cons_result (k, v) (parse_members m r)
                     else None)"
proof -
  have ws: "\<not> json_ws CHR 0x22" "\<not> json_ws CHR '':''"
    by (simp_all add: json_ws_def)
  have "parse_chars (concat (map quote_char k) @ CHR 0x22 # CHR '':'' # JSON_stringify v @ tail)
      = Some (k, CHR '':'' # JSON_stringify v @ tail)"
    by (rule parse_chars_quoted)
  with assms show ?thesis
    by (simp add: quote_def skip_ws_start ws)
qed

lemma parse_members_join:
  assumes member: "\<And>k v n rest. (k, v) \<in> set kvs \<Longrightarrow> terminated rest
            \<Longrightarrow> length (JSON_stringify v) < n
            \<Longrightarrow> parse_value n (JSON_stringify v @ rest) = Some (v, rest)"
    and "kvs \<noteq> []"
    and "length (join_comma (map (\<lambda>(k, v). quote k @ '':'' @ JSON_stringify v) kvs)) + 1 < n"
  shows "parse_members n
           (join_comma (map (\<lambda>(k, v). quote k @ '':'' @ JSON_stringify v) kvs) @ CHR ''}'' # rest)
         = Some (kvs, rest)"
  using assms
proof (induction kvs arbitrary: n)
  case Nil
  then show ?case by simp
next
  case (Cons kv kvs)
  note member = Cons.prems(1) and bound = Cons.prems(3) and IH = Cons.IH
  obtain k v where kv: "kv = (k, v)" by (cases kv)
  from bound obtain m where n: "n = Suc m" by (cases n) auto
  have ws: "\<not> json_ws CHR ''}''" "\<not> json_ws CHR '',''"
    by (simp_all add: json_ws_def)
  show ?case
  proof (cases kvs)
    case Nil
    with bound n kv have "length (JSON_stringify v) < m" by simp
    then have "parse_value m (JSON_stringify v @ CHR ''}'' # rest) = Some (v, CHR ''}'' # rest)"
      using kv by (intro member[where k = k]) (simp_all add: terminated_simps)
    from parse_member[OF this, of k] Nil n kv show ?thesis
      by (simp add: skip_ws_start ws)
  next
    case (Cons kv' kvs')
    let ?tail = "join_comma (map (\<lambda>(k, v). quote k @ '':'' @ JSON_stringify v) kvs)
                   @ CHR ''}'' # rest"
    from Cons bound n kv
    have len: "length (JSON_stringify v) < m"
        "length (join_comma (map (\<lambda>(k, v). quote k @ '':'' @ JSON_stringify v) kvs)) + 1 < m"
      by simp_all
    from len(1) have "parse_value m (JSON_stringify v @ CHR '','' # ?tail)
        = Some (v, CHR '','' # ?tail)"
      using kv by (intro member[where k = k]) (simp_all add: terminated_simps)
    from parse_member[OF this, of k]
    have "parse_members (Suc m) (quote k @ CHR '':'' # JSON_stringify v @ CHR '','' # ?tail)
        = cons_result (k, v) (parse_members m ?tail)"
      by (simp add: skip_ws_start ws)
    moreover have "parse_members m ?tail = Some (kvs, rest)"
    proof (rule IH)
      show "parse_value n' (JSON_stringify v' @ rest') = Some (v', rest')"
        if "(k', v') \<in> set kvs" "terminated rest'" "length (JSON_stringify v') < n'"
        for k' v' n' rest'
        using that by (intro member[where k = k']) simp_all
      show "kvs \<noteq> []" using Cons by simp
      show "length (join_comma (map (\<lambda>(k, v). quote k @ '':'' @ JSON_stringify v) kvs)) + 1 < m"
        by (rule len(2))
    qed
    ultimately show ?thesis
      using Cons n kv by (simp add: cons_result_def)
  qed
qed


lemma parse_value_stringify:
  assumes "wf_json v" and "terminated rest" and "length (JSON_stringify v) < n"
  shows "parse_value n (JSON_stringify v @ rest) = Some (v, rest)"
  using assms
proof (induction v arbitrary: n rest)
  case JNull
  then obtain m where "n = Suc m" by (cases n) auto
  then show ?case by (simp add: skip_ws_def json_ws_def)
next
  case (JBool b)
  then obtain m where "n = Suc m" by (cases n) auto
  then show ?case by (simp add: skip_ws_def json_ws_def)
next
  case (JNum i)
  then obtain m where n: "n = Suc m" by (cases n) auto
  from number_text_start[of i] obtain c cs
    where c: "number_text i = c # cs" "is_digit c \<or> c = CHR ''-''" by blast
  from c(2) have "\<not> json_ws c" "c \<noteq> CHR 0x22" "c \<noteq> CHR ''[''" "c \<noteq> CHR ''{''"
      "c \<noteq> CHR ''t''" "c \<noteq> CHR ''f''" "c \<noteq> CHR ''n''"
    by (auto simp: is_digit_def json_ws_def)
  moreover from parse_number_text[OF JNum.prems(2), of i] c(1)
  have "parse_number (c # cs @ rest) = Some (JNum i, rest)" by simp
  ultimately show ?case
    using n c(1) by (simp add: skip_ws_start)
next
  case (JFloat t)
  then show ?case by simp
next
  case (JStr s)
  then obtain m where n: "n = Suc m" by (cases n) auto
  have "\<not> json_ws CHR 0x22" by (simp add: json_ws_def)
  with n show ?case
    by (simp add: quote_def skip_ws_start parse_chars_quoted)
next
  case (JArr vs)
  then obtain m where n: "n = Suc m" by (cases n) auto
  have ws: "\<not> json_ws CHR ''[''" "\<not> json_ws CHR '']''" by (simp_all add: json_ws_def)
  show ?case
  proof (cases vs)
    case Nil
    with n show ?thesis by (simp add: skip_ws_start ws)
  next
    case (Cons w ws)
    let ?body = "join_comma (map JSON_stringify vs)"
    from Cons JArr.prems(1) have "wf_json w" by simp
    from stringify_start[OF this] Cons obtain c cs
      where c: "?body @ CHR '']'' # rest = c # cs" "\<not> json_ws c" "c \<noteq> CHR '']''"
      by (cases ws) auto
    have "parse_elems m (?body @ CHR '']'' # rest) = Some (vs, rest)"
    proof (rule parse_elems_join)
      show "parse_value n' (JSON_stringify v @ rest') = Some (v, rest')"
        if "v \<in> set vs" "terminated rest'" "length (JSON_stringify v) < n'" for v n' rest'
        using that JArr.prems(1) by (intro JArr.IH) (simp_all add: list_all_iff)
      show "vs \<noteq> []" using Cons by simp
      show "length ?body + 1 < m" using JArr.prems(3) n by simp
    qed
    with c n show ?thesis
      by (simp add: skip_ws_start ws)
  qed
next
  case (JObj kvs)
  then obtain m where n: "n = Suc m" by (cases n) auto
  have ws: "\<not> json_ws CHR ''{''" "\<not> json_ws CHR ''}''" "\<not> json_ws CHR 0x22"
    by (simp_all add: json_ws_def)
  from JObj.prems(1) have obj: "make_object kvs = kvs"
    by (simp add: make_object_distinct)
  show ?case
  proof (cases kvs)
    case Nil
    with n show ?thesis by (simp add: skip_ws_start ws)
  next
    case (Cons kv kvs')
    let ?body = "join_comma (map (\<lambda>(k, v). quote k @ '':'' @ JSON_stringify v) kvs)"
    from Cons obtain cs where c: "?body @ CHR ''}'' # rest = CHR 0x22 # cs"
      by (cases kv; cases kvs') (auto simp: quote_def)
    have "parse_members m (?body @ CHR ''}'' # rest) = Some (kvs, rest)"
    proof (rule parse_members_join)
      show "parse_value n' (JSON_stringify v @ rest') = Some (v, rest')"
        if "(k, v) \<in> set kvs" "terminated rest'" "length (JSON_stringify v) < n'"
        for k v n' rest'
        using that JObj.prems(1)
        by (intro JObj.IH[of "(k, v)"]) (auto simp: list_all_iff)
      show "kvs \<noteq> []" using Cons by simp
      show "length ?body + 1 < m" using JObj.prems(3) n by simp
    qed
    with c n obj show ?thesis
      by (simp add: skip_ws_start ws)
  qed
qed

text \<open>Every well-formed value parses back from its text.\<close>

lemma JSON_parse_stringify:
  assumes "wf_json v"
  shows "JSON_parse (JSON_stringify v) = Some v"
  using parse_value_stringify[OF assms, of "[]" "2 * length (JSON_stringify v) + 2"]
  by (simp add: JSON_parse_def terminated_simps skip_ws_def)

subsection \<open>The parser's bound on nested calls\<close>

lemma skip_ws_length: "length (skip_ws s) \<le> length s"
  by (simp add: skip_ws_def length_dropWhile_le)

lemma cons_result_Some:
  "cons_result x res = Some (ys, r) \<longleftrightarrow> (\<exists>xs. res = Some (xs, r) \<and> ys = x # xs)"
  by (auto simp: cons_result_def split: option.splits)

lemma parse_chars_shorter:
  "parse_chars s = Some (x, r) \<Longrightarrow> length r < length s"
proof (induction s arbitrary: x r rule: length_induct)
  case (1 s)
  show ?case
  proof (cases s)
    case Nil
    with 1 show ?thesis by simp
  next
    case (Cons c cs)
    note s = Cons
    show ?thesis
    proof (cases "c = CHR 0x22")
      case True
      with 1 s show ?thesis by simp
    next
      case quote: False
      show ?thesis
      proof (cases "c = CHR 0x5C")
        case False
        with quote 1(2) s obtain xs where "parse_chars cs = Some (xs, r)"
          by (auto simp: cons_result_Some split: if_splits)
        with 1(1) s have "length r < length cs" by simp
        with s show ?thesis by simp
      next
        case True
        with 1(2) s obtain e t where cs: "cs = e # t"
          by (cases cs) auto
        show ?thesis
        proof (cases "e = CHR ''u''")
          case True
          with \<open>c = CHR 0x5C\<close> 1(2) s cs obtain xs where "parse_chars (drop 4 t) = Some (xs, r)"
            by (auto simp: cons_result_Some split: list.splits option.splits)
          moreover have "length (drop 4 t) < length s" using s cs by simp
          ultimately have "length r < length (drop 4 t)"
            using 1(1) by blast
          with s cs show ?thesis by simp
        next
          case False
          with \<open>c = CHR 0x5C\<close> 1(2) s cs obtain xs where "parse_chars t = Some (xs, r)"
            by (auto simp: cons_result_Some split: option.splits)
          with 1(1) s cs have "length r < length t" by simp
          with s cs show ?thesis by simp
        qed
      qed
    qed
  qed
qed

lemma parse_digits_shorter: "parse_digits s = Some (ds, r) \<Longrightarrow> length r < length s"
proof -
  assume "parse_digits s = Some (ds, r)"
  then have "takeWhile is_digit s \<noteq> []" "r = dropWhile is_digit s"
    by (auto simp: parse_digits_def split: if_splits)
  moreover have "length (takeWhile is_digit s) + length (dropWhile is_digit s) = length s"
    by (metis length_append takeWhile_dropWhile_id)
  ultimately show ?thesis by (cases "takeWhile is_digit s") auto
qed

lemma parse_number_shorter: "parse_number s = Some (v, r) \<Longrightarrow> length r < length s"
proof -
  assume a: "parse_number s = Some (v, r)"
  then obtain ip s2 fp s3 ep
    where ip: "parse_int_part (snd (parse_minus s)) = Some (ip, s2)"
      and fp: "parse_frac s2 = Some (fp, s3)" and ep: "parse_exp s3 = Some (ep, r)"
    by (auto simp: parse_number_def split: option.splits if_splits)
  have "length (snd (parse_minus s)) \<le> length s"
    by (cases s) auto
  moreover from ip have "length s2 < length (snd (parse_minus s))"
    by (cases "snd (parse_minus s)") (auto split: if_splits dest: parse_digits_shorter)
  moreover from fp have "length s3 \<le> length s2"
    by (cases s2) (auto split: if_splits option.splits dest: parse_digits_shorter)
  moreover have "length r \<le> length s3"
  proof (cases s3)
    case Nil
    with ep show ?thesis by simp
  next
    case (Cons c t)
    show ?thesis
    proof (cases "c = CHR ''e'' \<or> c = CHR ''E''")
      case True
      with ep Cons obtain ds where "parse_digits (snd (parse_sign t)) = Some (ds, r)"
        by (auto split: option.splits)
      then have "length r < length (snd (parse_sign t))"
        by (rule parse_digits_shorter)
      moreover have "length (snd (parse_sign t)) \<le> length t"
        by (cases t) auto
      ultimately show ?thesis using Cons by simp
    next
      case False
      with ep Cons show ?thesis by auto
    qed
  qed
  ultimately show ?thesis by simp
qed


lemma skip_ws_Cons_length:
  assumes "skip_ws s = c # t"
  shows "length t < length s"
  using skip_ws_length[of s] assms by simp

paragraph \<open>One step of each parser\<close>

declare parse_value.simps [simp del] parse_elems.simps [simp del] parse_members.simps [simp del]

lemma parse_value_start:
  assumes "parse_value (Suc n) s = Some a"
  obtains c t where "skip_ws s = c # t"
  using assms by (cases "skip_ws s") (auto simp: parse_value.simps)

lemma parse_value_leaf:
  assumes "skip_ws s = c # t" and "c \<noteq> CHR ''[''" and "c \<noteq> CHR ''{''"
  shows "parse_value (Suc n) s =
     (if c = CHR 0x22 then
        (case parse_chars t of None \<Rightarrow> None | Some (x, r') \<Rightarrow> Some (JStr x, r'))
      else if prefix ''true'' (c # t) then Some (JBool True, drop 4 (c # t))
      else if prefix ''false'' (c # t) then Some (JBool False, drop 5 (c # t))
      else if prefix ''null'' (c # t) then Some (JNull, drop 4 (c # t))
      else parse_number (c # t))"
  using assms by (simp add: parse_value.simps)

lemma parse_value_arr:
  assumes "skip_ws s = CHR ''['' # t"
  shows "parse_value (Suc n) s =
     (case skip_ws t of
        [] \<Rightarrow> None
      | c' # t' \<Rightarrow>
          if c' = CHR '']'' then Some (JArr [], t')
          else (case parse_elems n (c' # t') of
                  None \<Rightarrow> None
                | Some (vs, r) \<Rightarrow> Some (JArr vs, r)))"
  using assms by (simp add: parse_value.simps)

lemma parse_value_obj:
  assumes "skip_ws s = CHR ''{'' # t"
  shows "parse_value (Suc n) s =
     (case skip_ws t of
        [] \<Rightarrow> None
      | c' # t' \<Rightarrow>
          if c' = CHR ''}'' then Some (JObj [], t')
          else (case parse_members n (c' # t') of
                  None \<Rightarrow> None
                | Some (kvs, r) \<Rightarrow> Some (JObj (make_object kvs), r)))"
  using assms by (simp add: parse_value.simps)

lemma parse_elems_parts:
  assumes "parse_elems (Suc n) s = Some a"
  obtains v t c t' where "parse_value n s = Some (v, t)" and "skip_ws t = c # t'"
proof -
  from assms obtain v t where v: "parse_value n s = Some (v, t)"
    by (cases "parse_value n s") (auto simp: parse_elems.simps)
  with assms obtain c t' where "skip_ws t = c # t'"
    by (cases "skip_ws t") (auto simp: parse_elems.simps)
  with v that show ?thesis by blast
qed

lemma parse_elems_step:
  assumes "parse_value n s = Some (v, t)" and "skip_ws t = c # t'"
  shows "parse_elems (Suc n) s =
     (if c = CHR '']'' then Some ([v], t')
      else if c = CHR '','' then cons_result v (parse_elems n t')
      else None)"
  using assms by (simp add: parse_elems.simps)

lemma parse_members_parts:
  assumes "parse_members (Suc n) s = Some a"
  obtains t k r1 r2 v r3 c3 r4
  where "skip_ws s = CHR 0x22 # t" and "parse_chars t = Some (k, r1)"
    and "skip_ws r1 = CHR '':'' # r2" and "parse_value n r2 = Some (v, r3)"
    and "skip_ws r3 = c3 # r4"
proof -
  note [simp] = parse_members.simps
  from assms obtain c t where sk: "skip_ws s = c # t"
    by (cases "skip_ws s") auto
  with assms have c: "c = CHR 0x22" by (auto split: if_splits)
  with assms sk obtain k r1 where k: "parse_chars t = Some (k, r1)"
    by (cases "parse_chars t") auto
  with assms sk c obtain c1 r2 where sk1: "skip_ws r1 = c1 # r2"
    by (cases "skip_ws r1") auto
  with assms sk c k have c1: "c1 = CHR '':''" by (auto split: if_splits)
  with assms sk c k sk1 obtain v r3 where v: "parse_value n r2 = Some (v, r3)"
    by (cases "parse_value n r2") auto
  with assms sk c k sk1 c1 obtain c3 r4 where "skip_ws r3 = c3 # r4"
    by (cases "skip_ws r3") auto
  with sk c k sk1 c1 v that show ?thesis by blast
qed

lemma parse_members_step:
  assumes "skip_ws s = CHR 0x22 # t" and "parse_chars t = Some (k, r1)"
    and "skip_ws r1 = CHR '':'' # r2" and "parse_value n r2 = Some (v, r3)"
    and "skip_ws r3 = c3 # r4"
  shows "parse_members (Suc n) s =
     (if c3 = CHR ''}'' then Some ([(k, v)], r4)
      else if c3 = CHR '','' then cons_result (k, v) (parse_members n r4)
      else None)"
  using assms by (simp add: parse_members.simps)

paragraph \<open>Every successful parse consumes a character\<close>

lemma parse_shorter_aux:
  "(\<forall>s v r. parse_value n s = Some (v, r) \<longrightarrow> length r < length s)
   \<and> (\<forall>s vs r. parse_elems n s = Some (vs, r) \<longrightarrow> length r < length s)
   \<and> (\<forall>s kvs r. parse_members n s = Some (kvs, r) \<longrightarrow> length r < length s)"
proof (induction n)
  case 0
  show ?case by (simp add: parse_value.simps parse_elems.simps parse_members.simps)
next
  case (Suc n)
  then have IHv: "\<And>s v r. parse_value n s = Some (v, r) \<Longrightarrow> length r < length s"
    and IHe: "\<And>s vs r. parse_elems n s = Some (vs, r) \<Longrightarrow> length r < length s"
    and IHm: "\<And>s kvs r. parse_members n s = Some (kvs, r) \<Longrightarrow> length r < length s"
    by blast+
  have "length r < length s" if a: "parse_value (Suc n) s = Some (v, r)" for s v r
  proof -
    from parse_value_start[OF a] obtain c t where sk: "skip_ws s = c # t" by blast
    note len = skip_ws_Cons_length[OF sk]
    consider (arr) "c = CHR ''[''" | (obj) "c = CHR ''{''"
      | (other) "c \<noteq> CHR ''[''" "c \<noteq> CHR ''{''"
      by blast
    then show ?thesis
    proof cases
      case arr
      note eq = parse_value_arr[OF sk[unfolded arr], of n]
      from a eq obtain c' t' where sk': "skip_ws t = c' # t'"
        by (cases "skip_ws t") auto
      note len' = skip_ws_Cons_length[OF sk']
      show ?thesis
      proof (cases "c' = CHR '']''")
        case True
        with a eq sk' len len' show ?thesis by simp
      next
        case False
        with a eq sk' obtain vs where "parse_elems n (c' # t') = Some (vs, r)"
          by (cases "parse_elems n (c' # t')") auto
        from IHe[OF this] len len' show ?thesis by simp
      qed
    next
      case obj
      note eq = parse_value_obj[OF sk[unfolded obj], of n]
      from a eq obtain c' t' where sk': "skip_ws t = c' # t'"
        by (cases "skip_ws t") auto
      note len' = skip_ws_Cons_length[OF sk']
      show ?thesis
      proof (cases "c' = CHR ''}''")
        case True
        with a eq sk' len len' show ?thesis by simp
      next
        case False
        with a eq sk' obtain kvs where "parse_members n (c' # t') = Some (kvs, r)"
          by (cases "parse_members n (c' # t')") auto
        from IHm[OF this] len len' show ?thesis by simp
      qed
    next
      case other
      note eq = parse_value_leaf[OF sk other, of n]
      show ?thesis
      proof (cases "c = CHR 0x22")
        case True
        with a eq obtain x where "parse_chars t = Some (x, r)"
          by (cases "parse_chars t") auto
        from parse_chars_shorter[OF this] len show ?thesis by simp
      next
        case False
        with a eq
        have "r = drop 4 (c # t) \<or> r = drop 5 (c # t) \<or> parse_number (c # t) = Some (v, r)"
          by (auto split: if_splits)
        then show ?thesis
          using len by (auto dest: parse_number_shorter)
      qed
    qed
  qed
  moreover have "length r < length s" if a: "parse_elems (Suc n) s = Some (vs, r)" for s vs r
  proof -
    from parse_elems_parts[OF a] obtain v t c t'
      where v: "parse_value n s = Some (v, t)" and sk: "skip_ws t = c # t'" by blast
    note len = IHv[OF v] skip_ws_Cons_length[OF sk]
    note eq = parse_elems_step[OF v sk]
    show ?thesis
    proof (cases "c = CHR '']''")
      case True
      with a eq len show ?thesis by simp
    next
      case False
      with a eq obtain ws where "parse_elems n t' = Some (ws, r)"
        by (auto simp: cons_result_Some split: if_splits)
      from IHe[OF this] len show ?thesis by simp
    qed
  qed
  moreover have "length r < length s" if a: "parse_members (Suc n) s = Some (kvs, r)" for s kvs r
  proof -
    from parse_members_parts[OF a] obtain t k r1 r2 v r3 c3 r4
      where sk: "skip_ws s = CHR 0x22 # t" and k: "parse_chars t = Some (k, r1)"
        and sk1: "skip_ws r1 = CHR '':'' # r2" and v: "parse_value n r2 = Some (v, r3)"
        and sk3: "skip_ws r3 = c3 # r4"
      by blast
    note len = skip_ws_Cons_length[OF sk] parse_chars_shorter[OF k]
      skip_ws_Cons_length[OF sk1] IHv[OF v] skip_ws_Cons_length[OF sk3]
    note eq = parse_members_step[OF sk k sk1 v sk3]
    show ?thesis
    proof (cases "c3 = CHR ''}''")
      case True
      with a eq len show ?thesis by simp
    next
      case False
      with a eq obtain ws where "parse_members n r4 = Some (ws, r)"
        by (auto simp: cons_result_Some split: if_splits)
      from IHm[OF this] len show ?thesis by simp
    qed
  qed
  ultimately show ?case by blast
qed

lemmas parse_value_shorter = parse_shorter_aux[THEN conjunct1, rule_format]

paragraph \<open>The bound is enough\<close>

lemma parse_enough_aux:
  "(\<forall>s a m. parse_value n s = Some a \<longrightarrow> 2 * length s + 1 \<le> m \<longrightarrow> parse_value m s = Some a)
   \<and> (\<forall>s a m. parse_elems n s = Some a \<longrightarrow> 2 * length s + 2 \<le> m \<longrightarrow> parse_elems m s = Some a)
   \<and> (\<forall>s a m. parse_members n s = Some a \<longrightarrow> 2 * length s + 2 \<le> m
          \<longrightarrow> parse_members m s = Some a)"
proof (induction n)
  case 0
  show ?case by (simp add: parse_value.simps parse_elems.simps parse_members.simps)
next
  case (Suc n)
  then have IHv: "\<And>s a m. parse_value n s = Some a \<Longrightarrow> 2 * length s + 1 \<le> m
        \<Longrightarrow> parse_value m s = Some a"
    and IHe: "\<And>s a m. parse_elems n s = Some a \<Longrightarrow> 2 * length s + 2 \<le> m
        \<Longrightarrow> parse_elems m s = Some a"
    and IHm: "\<And>s a m. parse_members n s = Some a \<Longrightarrow> 2 * length s + 2 \<le> m
        \<Longrightarrow> parse_members m s = Some a"
    by blast+
  have "parse_value m s = Some a"
    if a: "parse_value (Suc n) s = Some a" and m: "2 * length s + 1 \<le> m" for s a m
  proof -
    from m obtain m' where m': "m = Suc m'" by (cases m) auto
    from parse_value_start[OF a] obtain c t where sk: "skip_ws s = c # t" by blast
    note len = skip_ws_Cons_length[OF sk]
    consider (arr) "c = CHR ''[''" | (obj) "c = CHR ''{''"
      | (other) "c \<noteq> CHR ''[''" "c \<noteq> CHR ''{''"
      by blast
    then show ?thesis
    proof cases
      case arr
      note eq = parse_value_arr[OF sk[unfolded arr]]
      from a eq[of n] obtain c' t' where sk': "skip_ws t = c' # t'"
        by (cases "skip_ws t") auto
      note len' = skip_ws_Cons_length[OF sk']
      show ?thesis
      proof (cases "c' = CHR '']''")
        case True
        then have "parse_value (Suc m') s = parse_value (Suc n) s"
          by (simp add: eq sk')
        with a show ?thesis by (simp add: m')
      next
        case False
        with a eq[of n] sk' obtain vs r where e: "parse_elems n (c' # t') = Some (vs, r)"
          by (cases "parse_elems n (c' # t')") auto
        have "parse_elems m' (c' # t') = Some (vs, r)"
          using len len' m m' by (intro IHe[OF e]) simp
        with e have "parse_value (Suc m') s = parse_value (Suc n) s"
          by (simp add: eq sk')
        with a show ?thesis by (simp add: m')
      qed
    next
      case obj
      note eq = parse_value_obj[OF sk[unfolded obj]]
      from a eq[of n] obtain c' t' where sk': "skip_ws t = c' # t'"
        by (cases "skip_ws t") auto
      note len' = skip_ws_Cons_length[OF sk']
      show ?thesis
      proof (cases "c' = CHR ''}''")
        case True
        then have "parse_value (Suc m') s = parse_value (Suc n) s"
          by (simp add: eq sk')
        with a show ?thesis by (simp add: m')
      next
        case False
        with a eq[of n] sk' obtain kvs r where e: "parse_members n (c' # t') = Some (kvs, r)"
          by (cases "parse_members n (c' # t')") auto
        have "parse_members m' (c' # t') = Some (kvs, r)"
          using len len' m m' by (intro IHm[OF e]) simp
        with e have "parse_value (Suc m') s = parse_value (Suc n) s"
          by (simp add: eq sk')
        with a show ?thesis by (simp add: m')
      qed
    next
      case other
      have "parse_value (Suc m') s = parse_value (Suc n) s"
        by (simp only: parse_value_leaf[OF sk other])
      with a show ?thesis by (simp add: m')
    qed
  qed
  moreover have "parse_elems m s = Some a"
    if a: "parse_elems (Suc n) s = Some a" and m: "2 * length s + 2 \<le> m" for s a m
  proof -
    from m obtain m' where m': "m = Suc m'" by (cases m) auto
    from parse_elems_parts[OF a] obtain v t c t'
      where v: "parse_value n s = Some (v, t)" and sk: "skip_ws t = c # t'" by blast
    note len = parse_value_shorter[OF v] skip_ws_Cons_length[OF sk]
    have v': "parse_value m' s = Some (v, t)"
      using m m' by (intro IHv[OF v]) simp
    note eq = parse_elems_step[OF v sk] and eq' = parse_elems_step[OF v' sk]
    show ?thesis
    proof (cases "c = CHR '',''")
      case False
      then have "parse_elems (Suc m') s = parse_elems (Suc n) s"
        by (simp add: eq eq')
      with a show ?thesis by (simp add: m')
    next
      case True
      with a eq obtain ws r where e: "parse_elems n t' = Some (ws, r)"
        by (cases "parse_elems n t'") (auto simp: cons_result_def)
      have "parse_elems m' t' = Some (ws, r)"
        using len m m' by (intro IHe[OF e]) simp
      with e True have "parse_elems (Suc m') s = parse_elems (Suc n) s"
        by (simp add: eq eq')
      with a show ?thesis by (simp add: m')
    qed
  qed
  moreover have "parse_members m s = Some a"
    if a: "parse_members (Suc n) s = Some a" and m: "2 * length s + 2 \<le> m" for s a m
  proof -
    from m obtain m' where m': "m = Suc m'" by (cases m) auto
    from parse_members_parts[OF a] obtain t k r1 r2 v r3 c3 r4
      where sk: "skip_ws s = CHR 0x22 # t" and k: "parse_chars t = Some (k, r1)"
        and sk1: "skip_ws r1 = CHR '':'' # r2" and v: "parse_value n r2 = Some (v, r3)"
        and sk3: "skip_ws r3 = c3 # r4"
      by blast
    note len = skip_ws_Cons_length[OF sk] parse_chars_shorter[OF k]
      skip_ws_Cons_length[OF sk1] parse_value_shorter[OF v] skip_ws_Cons_length[OF sk3]
    have v': "parse_value m' r2 = Some (v, r3)"
      using len m m' by (intro IHv[OF v]) simp
    note eq = parse_members_step[OF sk k sk1 v sk3]
      and eq' = parse_members_step[OF sk k sk1 v' sk3]
    show ?thesis
    proof (cases "c3 = CHR '',''")
      case False
      then have "parse_members (Suc m') s = parse_members (Suc n) s"
        by (simp add: eq eq')
      with a show ?thesis by (simp add: m')
    next
      case True
      with a eq obtain ws r where e: "parse_members n r4 = Some (ws, r)"
        by (cases "parse_members n r4") (auto simp: cons_result_def)
      have "parse_members m' r4 = Some (ws, r)"
        using len m m' by (intro IHm[OF e]) simp
      with e True have "parse_members (Suc m') s = parse_members (Suc n) s"
        by (simp add: eq eq')
      with a show ?thesis by (simp add: m')
    qed
  qed
  ultimately show ?case by blast
qed

text \<open>
  The bound on nested calls that \<open>JSON_parse\<close> starts with never cuts a parse short: a
  text that parses with any bound parses with this one, to the same value.
\<close>

lemma JSON_parse_enough:
  assumes "parse_value n s = Some (v, r)" and "skip_ws r = []"
  shows "JSON_parse s = Some v"
proof -
  have "parse_value (2 * length s + 2) s = Some (v, r)"
    by (rule parse_enough_aux[of n, THEN conjunct1, rule_format, OF assms(1)]) simp
  with assms(2) show ?thesis by (simp add: JSON_parse_def)
qed

subsection \<open>Saving and loading the client list\<close>

lemma wf_clients_value: "wf_json (clients_value cs)"
  by (simp add: clients_value_def client_obj_def list_all_iff)

lemma client_obj_inj:
  assumes "client_obj c = client_obj c'"
  shows "c = c'"
  using assms by (cases c; cases c') (simp add: client_obj_def)

lemma clients_value_inj:
  assumes "clients_value cs = clients_value cs'"
  shows "cs = cs'"
proof -
  have "inj client_obj" by (rule injI) (rule client_obj_inj)
  with assms show ?thesis by (simp add: clients_value_def inj_map_eq_map)
qed

lemma stringify_array_nonempty: "JSON_stringify (clients_value cs) \<noteq> []"
  by (simp add: clients_value_def)

text \<open>
  Claim C7: saving any collection of client records and loading it again returns the array
  of the same records, with the same keys and values (and in the same key order), with
  nothing logged; the collection read back is that collection and no other. \<open>loadClients\<close>
  returns the empty array when the stored entry is absent, and also whenever parsing it
  fails: the failure is written to the console and the function returns normally.
\<close>

theorem save_load_round_trip:
  "loadClients (saveClients (clients_value cs)) = (clients_value cs, [])
   \<and> (\<forall>cs'. fst (loadClients (saveClients (clients_value cs))) = clients_value cs'
          \<longrightarrow> cs' = cs)
   \<and> loadClients None = (JArr [], [])
   \<and> (JSON_parse s = None \<longrightarrow>
        loadClients (Some s)
          = (JArr [], if s = [] then [] else [''Could not parse stored clients'']))"
proof -
  have "loadClients (saveClients (clients_value cs)) = (clients_value cs, [])"
    by (simp add: loadClients_def saveClients_def stringify_array_nonempty
        JSON_parse_stringify[OF wf_clients_value])
  then show ?thesis
    by (auto simp: loadClients_def dest: clients_value_inj)
qed

lemma parse_failure_example: "JSON_parse ''{oops'' = None"
  by code_simp

theorem save_load_round_trip_witness:
  "JSON_parse ''{oops'' = None
   \<and> loadClients (Some ''{oops'') = (JArr [], [''Could not parse stored clients''])
   \<and> loadClients (saveClients (clients_value [client_bob, client_jane]))
       = (clients_value [client_bob, client_jane], [])"
  using save_load_round_trip[of "[client_bob, client_jane]" "''{oops''"] parse_failure_example
  by simp

end
